theory Spec2Isabelle
  imports Main "HOL-Library.Word"
begin

unbundle bit_operations_syntax

section \<open>Byte-addressed memory\<close>

text \<open>
  Both allocators store their links and headers inside the memory they manage, and
  \<^verbatim>\<open>slab_reset\<close> zeroes that memory byte by byte.  Memory is therefore a total map
  from 64-bit addresses to bytes; a \<^verbatim>\<open>uintptr_t\<close> or \<^verbatim>\<open>size_t\<close> access reads or
  writes eight consecutive bytes, least significant byte first (x86-64).  Address
  arithmetic wraps modulo \<open>2 ^ 64\<close>, as \<^verbatim>\<open>uintptr_t\<close> arithmetic does.
\<close>

type_synonym addr = "64 word"
type_synonym mem = "addr \<Rightarrow> 8 word"

definition write64 :: "mem \<Rightarrow> addr \<Rightarrow> 64 word \<Rightarrow> mem" where
  "write64 m a v = (\<lambda>x. if x - a < 8 then ucast (drop_bit (8 * unat (x - a)) v) else m x)"

definition read64 :: "mem \<Rightarrow> addr \<Rightarrow> 64 word" where
  "read64 m a =
     ucast (m a) OR push_bit 8 (ucast (m (a + 1))) OR push_bit 16 (ucast (m (a + 2))) OR
     push_bit 24 (ucast (m (a + 3))) OR push_bit 32 (ucast (m (a + 4))) OR
     push_bit 40 (ucast (m (a + 5))) OR push_bit 48 (ucast (m (a + 6))) OR
     push_bit 56 (ucast (m (a + 7)))"

text \<open>A sequence of 8-byte stores, first to last.\<close>

fun writes :: "(addr \<times> 64 word) list \<Rightarrow> mem \<Rightarrow> mem" where
  "writes [] m = m"
| "writes ((a, v) # ws) m = writes ws (write64 m a v)"

text \<open>\<^verbatim>\<open>memset(p, value, n)\<close> of the C library: the \<open>n\<close> bytes from \<open>p\<close> on.\<close>

definition memset :: "mem \<Rightarrow> addr \<Rightarrow> 8 word \<Rightarrow> 64 word \<Rightarrow> mem" where
  "memset m p v n = (\<lambda>x. if x - p < n then v else m x)"

section \<open>The bulk fill \<^verbatim>\<open>simd_memset\<close>\<close>

text \<open>
  The loop \<^verbatim>\<open>for (i = 0; i < size / 32; i++) _mm256_store_si256(p + i * 32, vec)\<close>:
  each store writes 32 copies of the byte.
\<close>

primrec avx_fill :: "mem \<Rightarrow> addr \<Rightarrow> 8 word \<Rightarrow> nat \<Rightarrow> mem" where
  "avx_fill m p v 0 = m"
| "avx_fill m p v (Suc i) = memset (avx_fill m p v i) (p + of_nat i * 32) v 32"

definition simd_memset :: "mem \<Rightarrow> addr \<Rightarrow> 32 word \<Rightarrow> 64 word \<Rightarrow> mem" where
  "simd_memset m ptr val sz =
     (let v = ucast val :: 8 word;
          misalignment = ptr mod 32;
          align_bytes = (if 32 - misalignment > sz then sz else 32 - misalignment);
          m1 = (if misalignment \<noteq> 0 then memset m ptr v align_bytes else m);
          p = (if misalignment \<noteq> 0 then ptr + align_bytes else ptr);
          size1 = (if misalignment \<noteq> 0 then sz - align_bytes else sz);
          m2 = avx_fill m1 p v (unat (size1 div 32));
          remaining = size1 mod 32
      in if remaining \<noteq> 0 then memset m2 (p + (size1 - remaining)) v remaining else m2)"

section \<open>The slab allocator\<close>

text \<open>
  \<^verbatim>\<open>struct Slab\<close> without its lock (and, in the file-mapping variant, without the mapping
  handle): calls are modelled one at a time.  A null \<^verbatim>\<open>Slab*\<close> handle is \<open>None\<close>.
\<close>

record Slab =
  memory :: addr
  object_size :: "64 word"
  total_objects :: "64 word"
  free_list :: addr

definition HEADER_SIZE :: "64 word" where
  "HEADER_SIZE = 32"

definition align_size :: "64 word \<Rightarrow> 64 word" where
  "align_size sz = (sz + 15) AND NOT 15"

text \<open>
  The linking loop of \<^verbatim>\<open>slab_init\<close> and \<^verbatim>\<open>slab_reset\<close> (VirtualAlloc variant):
  \<^verbatim>\<open>for (i = 0; i < total_objects - 1; i++) *(uintptr_t*)(memory + i * object_size) =
  memory + (i + 1) * object_size\<close>; the argument \<open>n\<close> is the number of iterations.
\<close>

primrec link_cells :: "addr \<Rightarrow> 64 word \<Rightarrow> nat \<Rightarrow> mem \<Rightarrow> mem" where
  "link_cells base cs 0 m = m"
| "link_cells base cs (Suc i) m =
     write64 (link_cells base cs i m) (base + of_nat i * cs) (base + (of_nat i + 1) * cs)"

text \<open>
  \<^verbatim>\<open>slab_init\<close>.  The operating system is the function \<open>os\<close>: the address \<^verbatim>\<open>VirtualAlloc\<close>
  returns for a request of so many bytes, \<open>0\<close> when it refuses.  The result is the C return
  value, the slab behind the handle and the memory.
\<close>

definition slab_init ::
  "Slab option \<Rightarrow> 64 word \<Rightarrow> 64 word \<Rightarrow> (64 word \<Rightarrow> addr) \<Rightarrow> mem \<Rightarrow> int \<times> Slab option \<times> mem" where
  "slab_init h total_objs object_sz os m =
     (case h of
        None \<Rightarrow> (0, None, m)
      | Some slab \<Rightarrow>
          if total_objs = 0 \<or> object_sz < 8 then (0, Some slab, m)
          else
            let slab1 = slab\<lparr>object_size := align_size object_sz, total_objects := total_objs\<rparr>;
                slab_memory_size = object_size slab1 * total_objs;
                slab2 = slab1\<lparr>memory := os slab_memory_size\<rparr>
            in if memory slab2 = 0 then (0, Some slab2, m)
               else
                 let slab3 = slab2\<lparr>free_list := memory slab2\<rparr>;
                     m1 = link_cells (memory slab3) (object_size slab3) (unat (total_objs - 1)) m;
                     last_obj = memory slab3 + (total_objs - 1) * object_size slab3
                 in (1, Some slab3, write64 m1 last_obj 0))"

text \<open>
  \<^verbatim>\<open>slab_alloc\<close>: the assembly pops the head of the free list; only the handle changes.
\<close>

definition slab_alloc :: "Slab option \<Rightarrow> mem \<Rightarrow> addr \<times> Slab option" where
  "slab_alloc h m =
     (case h of
        None \<Rightarrow> (0, None)
      | Some slab \<Rightarrow>
          let rax = free_list slab in
          if rax = 0 then (0, Some slab)
          else
            let rbx = read64 m rax;
                slab1 = slab\<lparr>free_list := rbx\<rparr>;
                result = rax
            in (if result \<noteq> 0 then result + HEADER_SIZE else 0, Some slab1))"

text \<open>
  \<^verbatim>\<open>slab_free\<close>.  The C variable \<^verbatim>\<open>obj = ptr - HEADER_SIZE\<close> is handed to the assembly as
  the input operand \<^verbatim>\<open>[rcx] "r" (obj)\<close>: \<^verbatim>\<open>rcx\<close> is only the symbolic name of the operand, and
  the constraint \<^verbatim>\<open>"r"\<close> lets the compiler keep \<^verbatim>\<open>obj\<close> in any general register.  The
  template never refers to the operand (that would be \<^verbatim>\<open>%[rcx]\<close>); it stores through the
  literal register \<^verbatim>\<open>%%rcx\<close> and makes that register the new head of the free list.  So
  what is pushed is the content of \<^verbatim>\<open>%rcx\<close> at the assembly statement, which the C source
  does not determine: it is the parameter \<open>rcx\<close> here.  A build that happens to keep
  \<^verbatim>\<open>obj\<close> in \<^verbatim>\<open>%rcx\<close> is the instance \<open>rcx = ptr - 32\<close>.  Both variants of the file have
  the same statement.
\<close>

definition slab_free :: "Slab option \<Rightarrow> mem \<Rightarrow> addr \<Rightarrow> addr \<Rightarrow> Slab option \<times> mem" where
  "slab_free h m ptr rcx =
     (case h of
        None \<Rightarrow> (None, m)
      | Some slab \<Rightarrow>
          if ptr = 0 then (Some slab, m)
          else
            let obj = ptr - HEADER_SIZE;
                rax = free_list slab
            in (Some (slab\<lparr>free_list := rcx\<rparr>), write64 m rcx rax))"

text \<open>
  \<^verbatim>\<open>slab_reset\<close> (VirtualAlloc variant): the free list is rebuilt as in \<^verbatim>\<open>slab_init\<close>, and
  then the whole region is filled with zero bytes.
\<close>

definition slab_reset :: "Slab option \<Rightarrow> mem \<Rightarrow> Slab option \<times> mem" where
  "slab_reset h m =
     (case h of
        None \<Rightarrow> (None, m)
      | Some slab \<Rightarrow>
          let slab1 = slab\<lparr>free_list := memory slab\<rparr>;
              m1 = link_cells (memory slab1) (object_size slab1) (unat (total_objects slab1 - 1)) m;
              last_obj = memory slab1 + (total_objects slab1 - 1) * object_size slab1;
              m2 = write64 m1 last_obj 0
          in (Some slab1,
              simd_memset m2 (memory slab1) 0 (object_size slab1 * total_objects slab1)))"

text \<open>
  The file-mapping variant (\<^verbatim>\<open>src/Slab_allocate/slab_alloc.c\<close>) links in one loop,
  \<^verbatim>\<open>for (i = 0; i < total_objects; i++)\<close>, writing \<^verbatim>\<open>NULL\<close> into the last cell.
\<close>

primrec link_cells_mapped :: "addr \<Rightarrow> 64 word \<Rightarrow> 64 word \<Rightarrow> nat \<Rightarrow> mem \<Rightarrow> mem" where
  "link_cells_mapped base cs total_objs 0 m = m"
| "link_cells_mapped base cs total_objs (Suc i) m =
     write64 (link_cells_mapped base cs total_objs i m) (base + of_nat i * cs)
       (if (of_nat i :: 64 word) < total_objs - 1 then base + (of_nat i + 1) * cs else 0)"

definition slab_reset_mapped :: "Slab option \<Rightarrow> mem \<Rightarrow> Slab option \<times> mem" where
  "slab_reset_mapped h m =
     (case h of
        None \<Rightarrow> (None, m)
      | Some slab \<Rightarrow>
          let slab1 = slab\<lparr>free_list := memory slab\<rparr>;
              m1 = link_cells_mapped (memory slab1) (object_size slab1) (total_objects slab1)
                     (unat (total_objects slab1)) m
          in (Some slab1,
              simd_memset m1 (memory slab1) 0 (object_size slab1 * total_objects slab1)))"

section \<open>Slab: cells and sequences of calls\<close>

text \<open>
  What \<^verbatim>\<open>slab_init\<close> needs from the operating system for a region of \<open>n\<close> cells of
  \<open>cs\<close> bytes at \<open>base\<close>: the base is not null, a cell holds a link word, and the cells, and
  the pointers \<open>cell + 32\<close> handed out, lie below the top of the address space.
\<close>

definition cells_ok :: "addr \<Rightarrow> 64 word \<Rightarrow> nat \<Rightarrow> bool" where
  "cells_ok base cs n \<longleftrightarrow> base \<noteq> 0 \<and> 8 \<le> unat cs \<and> unat base + n * unat cs + 32 \<le> 2 ^ 64"

definition slab_region_ok :: "Slab \<Rightarrow> bool" where
  "slab_region_ok s = cells_ok (memory s) (object_size s) (unat (total_objects s))"

definition cell :: "Slab \<Rightarrow> nat \<Rightarrow> addr" where
  "cell s i = memory s + of_nat i * object_size s"

text \<open>\<open>k\<close> calls of \<^verbatim>\<open>slab_alloc\<close> in a row: the pointers returned, in order, and the handle.\<close>

fun slab_allocs :: "nat \<Rightarrow> Slab option \<Rightarrow> mem \<Rightarrow> addr list \<times> Slab option" where
  "slab_allocs 0 h m = ([], h)"
| "slab_allocs (Suc k) h m =
     (case slab_alloc h m of (p, h1) \<Rightarrow>
        case slab_allocs k h1 m of (ps, h2) \<Rightarrow> (p # ps, h2))"

text \<open>
  The states a slab can reach from the state \<open>(s0, m0)\<close> that \<^verbatim>\<open>slab_init\<close> left, with the
  set of pointers returned so far: by \<^verbatim>\<open>slab_alloc\<close>, by \<^verbatim>\<open>slab_free\<close> of a pointer that
  \<^verbatim>\<open>slab_alloc\<close> returned, by either variant of \<^verbatim>\<open>slab_reset\<close>, and by the caller writing
  a byte of the payload of a returned pointer (the \<open>object_size - 32\<close> bytes from it on).
  The rule for \<^verbatim>\<open>slab_free\<close> covers only the builds that keep \<^verbatim>\<open>obj\<close> in \<^verbatim>\<open>%rcx\<close>, where the
  register holds \<open>p - 32\<close>; with any other content of the register the slab leaves these
  states.
\<close>

inductive_set slab_states :: "Slab \<Rightarrow> mem \<Rightarrow> (Slab \<times> mem \<times> addr set) set"
  for s0 :: Slab and m0 :: mem where
  start: "(s0, m0, {}) \<in> slab_states s0 m0"
| alloc: "(s, m, R) \<in> slab_states s0 m0 \<Longrightarrow> slab_alloc (Some s) m = (p, Some s') \<Longrightarrow>
     (s', m, insert p R) \<in> slab_states s0 m0"
| free: "(s, m, R) \<in> slab_states s0 m0 \<Longrightarrow> p \<in> R \<Longrightarrow>
     slab_free (Some s) m p (p - 32) = (Some s', m') \<Longrightarrow> (s', m', R) \<in> slab_states s0 m0"
| reset: "(s, m, R) \<in> slab_states s0 m0 \<Longrightarrow> slab_reset (Some s) m = (Some s', m') \<Longrightarrow>
     (s', m', R) \<in> slab_states s0 m0"
| reset_mapped: "(s, m, R) \<in> slab_states s0 m0 \<Longrightarrow> slab_reset_mapped (Some s) m = (Some s', m') \<Longrightarrow>
     (s', m', R) \<in> slab_states s0 m0"
| user_write: "(s, m, R) \<in> slab_states s0 m0 \<Longrightarrow> p \<in> R \<Longrightarrow> p \<noteq> 0 \<Longrightarrow>
     unat off + 32 < unat (object_size s) \<Longrightarrow> (s, m(p + off := v), R) \<in> slab_states s0 m0"

definition cells :: "Slab \<Rightarrow> addr set" where
  "cells s = (\<lambda>i. cell s i) ` {..<unat (total_objects s)}"

definition slab_inv :: "Slab \<Rightarrow> Slab \<times> mem \<times> addr set \<Rightarrow> bool" where
  "slab_inv s0 = (\<lambda>(s, m, R).
     memory s = memory s0 \<and> object_size s = object_size s0 \<and> total_objects s = total_objects s0 \<and>
     Slab.free_list s \<in> insert 0 (cells s0) \<and>
     (\<forall>c\<in>cells s0. read64 m c \<in> insert 0 (cells s0)) \<and>
     (\<forall>p\<in>R. p = 0 \<or> p - 32 \<in> cells s0))"

section \<open>The pool allocator\<close>

text \<open>
  \<^verbatim>\<open>struct Pool\<close> without its two locks.  The region chain and the block headers live in
  memory: a \<^verbatim>\<open>PoolBlock\<close> at \<open>p\<close> has \<^verbatim>\<open>base\<close> at \<open>p\<close>, \<^verbatim>\<open>size\<close> at \<open>p + 8\<close>, \<^verbatim>\<open>offset\<close> at
  \<open>p + 16\<close> and \<^verbatim>\<open>next\<close> at \<open>p + 24\<close>; a \<^verbatim>\<open>BlockHeader\<close> at \<open>h\<close> has \<^verbatim>\<open>size\<close> at \<open>h\<close>,
  \<^verbatim>\<open>padding\<close> at \<open>h + 8\<close> and \<^verbatim>\<open>next_free\<close> at \<open>h + 16\<close>.
\<close>

record Pool =
  block_head :: addr
  free_list :: addr
  initial_block_size :: "64 word"

text \<open>
  The two ways a call can trap instead of returning: the remainder by a zero alignment in
  \<^verbatim>\<open>remove_free_block\<close>, and the read through a null \<^verbatim>\<open>BlockHeader*\<close> in
  \<^verbatim>\<open>coalesce_free_list\<close>.  A walk along a cyclic list never returns: that is \<open>None\<close>.
\<close>

datatype fault = DivideByZero | NullDereference

definition MIN_SPLIT_THRESHOLD :: "64 word" where
  "MIN_SPLIT_THRESHOLD = 16"

text \<open>The loop of \<^verbatim>\<open>remove_free_block\<close>, with its two cursors \<^verbatim>\<open>prev\<close> and \<^verbatim>\<open>current\<close>.\<close>

partial_function (option) remove_free_block_loop ::
  "Pool \<Rightarrow> mem \<Rightarrow> 64 word \<Rightarrow> 64 word \<Rightarrow> addr \<Rightarrow> addr \<Rightarrow> (fault + addr \<times> Pool \<times> mem) option" where
  "remove_free_block_loop pool m alloc_size alignment prev current =
     (if current = 0 then Some (Inr (0, pool, m))
      else if alignment = 0 then Some (Inl DivideByZero)
      else if (current + HEADER_SIZE) mod alignment = 0 \<and> alloc_size \<le> read64 m current then
        (let next_free = read64 m (current + 16);
             pool1 = (if prev = 0 then pool\<lparr>free_list := next_free\<rparr> else pool);
             m1 = (if prev = 0 then m else write64 m (prev + 16) next_free)
         in if alloc_size + HEADER_SIZE + MIN_SPLIT_THRESHOLD \<le> read64 m1 current then
              (let original_size = read64 m1 current;
                   m2 = write64 m1 current alloc_size;
                   leftover_addr = current + HEADER_SIZE + alloc_size;
                   leftover_size = original_size - alloc_size - HEADER_SIZE;
                   m3 = write64 m2 leftover_addr leftover_size;
                   m4 = write64 m3 (leftover_addr + 8) 0;
                   m5 = write64 m4 (leftover_addr + 16) (free_list pool1)
               in Some (Inr (current + HEADER_SIZE, pool1\<lparr>free_list := leftover_addr\<rparr>, m5)))
            else Some (Inr (current + HEADER_SIZE, pool1, m1)))
      else remove_free_block_loop pool m alloc_size alignment current (read64 m (current + 16)))"

definition remove_free_block ::
  "Pool \<Rightarrow> mem \<Rightarrow> 64 word \<Rightarrow> 64 word \<Rightarrow> (fault + addr \<times> Pool \<times> mem) option" where
  "remove_free_block pool m alloc_size alignment =
     remove_free_block_loop pool m alloc_size alignment 0 (free_list pool)"

text \<open>
  \<^verbatim>\<open>alloc_from_block\<close>, register by register.  \<^verbatim>\<open>ja\<close> is the unsigned comparison; the stores
  happen only on the path that does not jump.
\<close>

definition alloc_from_block :: "mem \<Rightarrow> addr \<Rightarrow> 64 word \<Rightarrow> 64 word \<Rightarrow> addr \<times> mem" where
  "alloc_from_block m block_ptr alloc_size alignment =
     (let offset = read64 m (block_ptr + 16);
          rdx = read64 m block_ptr;
          rcx = offset + rdx;
          r9 = (rcx + 32 + (alignment - 1)) AND NOT (alignment - 1);
          r10 = rcx + 32;
          r11 = r9 - r10;
          r8 = 32 + r11 + alloc_size;
          r12 = offset + r8;
          rdi = read64 m (block_ptr + 8)
      in if rdi < r12 then (0, m)
         else
           let m1 = write64 m (block_ptr + 16) r12;
               header = r9 - 32;
               m2 = write64 m1 header alloc_size;
               m3 = write64 m2 (header + 8) r11;
               m4 = write64 m3 (header + 16) 0
           in (r9, m4))"

text \<open>The walk of \<^verbatim>\<open>pool_alloc\<close> along the region chain, trying each region in turn.\<close>

partial_function (option) bump_loop :: "mem \<Rightarrow> 64 word \<Rightarrow> 64 word \<Rightarrow> addr \<Rightarrow> (addr \<times> mem) option" where
  "bump_loop m alloc_size alignment block_ptr =
     (if block_ptr = 0 then Some (0, m)
      else
        let r = alloc_from_block m block_ptr alloc_size alignment in
        if fst r \<noteq> 0 then Some r
        else bump_loop (snd r) alloc_size alignment (read64 (snd r) (block_ptr + 24)))"

text \<open>\<^verbatim>\<open>while (last->next != 0) last = last->next\<close>.\<close>

partial_function (option) last_block :: "mem \<Rightarrow> addr \<Rightarrow> addr option" where
  "last_block m lastb =
     (if read64 m (lastb + 24) \<noteq> 0 then last_block m (read64 m (lastb + 24)) else Some lastb)"

definition pool_init ::
  "Pool option \<Rightarrow> 64 word \<Rightarrow> (64 word \<Rightarrow> addr) \<Rightarrow> mem \<Rightarrow> int \<times> Pool option \<times> mem" where
  "pool_init h pool_size os m =
     (case h of
        None \<Rightarrow> (0, None, m)
      | Some pool \<Rightarrow>
          if pool_size = 0 then (0, Some pool, m)
          else
            let block_total_size = pool_size + 32;
                block = os block_total_size
            in if block = 0 then (0, Some pool, m)
               else
                 let base = block + 32;
                     aligned_base = (base + 15) AND NOT 15;
                     m1 = write64 m block aligned_base;
                     m2 = write64 m1 (block + 8) pool_size;
                     m3 = write64 m2 (block + 16) 0;
                     m4 = write64 m3 (block + 24) 0
                 in (1, Some (pool\<lparr>block_head := block, free_list := 0,
                                  initial_block_size := pool_size\<rparr>), m4))"

text \<open>
  \<^verbatim>\<open>pool_alloc\<close>.  The result is \<open>None\<close> when a walk does not end, a fault when the call
  traps, and otherwise the pointer returned, the pool and the memory.
\<close>

definition grow ::
  "Pool \<Rightarrow> mem \<Rightarrow> 64 word \<Rightarrow> 64 word \<Rightarrow> (64 word \<Rightarrow> addr) \<Rightarrow> (addr \<times> Pool \<times> mem) option" where
  "grow pool m alloc_size alignment os =
     (let new_block_size =
            (if initial_block_size pool < alloc_size + HEADER_SIZE then alloc_size + HEADER_SIZE
             else initial_block_size pool);
          total_new_block_size = new_block_size + 32;
          new_block = os total_new_block_size
      in if new_block = 0 then Some (0, pool, m)
         else
           let m1 = write64 m new_block ((new_block + 32 + 15) AND NOT 15);
               m2 = write64 m1 (new_block + 8) new_block_size;
               m3 = write64 m2 (new_block + 16) 0;
               m4 = write64 m3 (new_block + 24) 0
           in if block_head pool = 0 then
                (let r = alloc_from_block m4 new_block alloc_size alignment
                 in Some (fst r, pool\<lparr>block_head := new_block\<rparr>, snd r))
              else
                (case last_block m4 (block_head pool) of
                   None \<Rightarrow> None
                 | Some lastb \<Rightarrow>
                     let r = alloc_from_block (write64 m4 (lastb + 24) new_block) new_block
                               alloc_size alignment
                     in Some (fst r, pool, snd r)))"

definition pool_alloc ::
  "Pool option \<Rightarrow> mem \<Rightarrow> 64 word \<Rightarrow> 64 word \<Rightarrow> (64 word \<Rightarrow> addr) \<Rightarrow>
     (fault + addr \<times> Pool option \<times> mem) option" where
  "pool_alloc h m alloc_size alignment os =
     (case h of
        None \<Rightarrow> Some (Inr (0, None, m))
      | Some pool \<Rightarrow>
          if alloc_size = 0 \<or> (alignment AND (alignment - 1)) \<noteq> 0 then Some (Inr (0, Some pool, m))
          else
            (case remove_free_block pool m alloc_size alignment of
               None \<Rightarrow> None
             | Some (Inl f) \<Rightarrow> Some (Inl f)
             | Some (Inr (result, pool1, m1)) \<Rightarrow>
                 if result \<noteq> 0 then Some (Inr (result, Some pool1, m1))
                 else
                   (case bump_loop m1 alloc_size alignment (block_head pool1) of
                      None \<Rightarrow> None
                    | Some (result2, m2) \<Rightarrow>
                        if result2 \<noteq> 0 then Some (Inr (result2, Some pool1, m2))
                        else
                          (case grow pool1 m2 alloc_size alignment os of
                             None \<Rightarrow> None
                           | Some (result3, pool3, m3) \<Rightarrow> Some (Inr (result3, Some pool3, m3))))))"

text \<open>
  \<^verbatim>\<open>coalesce_free_list\<close>.  The two walks that count and copy the free list are one walk
  here; \<^verbatim>\<open>qsort\<close> with the address comparison is \<open>sort\<close>; \<open>malloc_ok\<close> says whether
  \<^verbatim>\<open>malloc\<close> returned an array.
\<close>

partial_function (option) free_list_walk :: "mem \<Rightarrow> addr \<Rightarrow> addr list option" where
  "free_list_walk m cur =
     (if cur = 0 then Some []
      else Option.bind (free_list_walk m (read64 m (cur + 16))) (\<lambda>rest. Some (cur # rest)))"

function merge_adjacent :: "mem \<Rightarrow> addr list \<Rightarrow> nat \<Rightarrow> fault + mem \<times> addr list" where
  "merge_adjacent m arr i =
     (if i + 1 < length arr then
        (let a = arr ! i; b = arr ! (i + 1) in
         if a = 0 then Inl NullDereference
         else if a + HEADER_SIZE + read64 m a = b then
           merge_adjacent (write64 m a (read64 m a + HEADER_SIZE + read64 m b)) (arr[i + 1 := 0]) (i + 1)
         else merge_adjacent m arr (i + 1))
      else Inr (m, arr))"
  by pat_completeness auto
termination
  by (relation "measure (\<lambda>(m, arr, i). length arr - i)") auto

primrec relink :: "addr list \<Rightarrow> addr \<Rightarrow> addr \<Rightarrow> mem \<Rightarrow> addr \<times> addr \<times> mem" where
  "relink [] new_free_list prev m = (new_free_list, prev, m)"
| "relink (x # xs) new_free_list prev m =
     (if x \<noteq> 0 then
        (if new_free_list = 0 then relink xs x x m
         else relink xs new_free_list x (write64 m (prev + 16) x))
      else relink xs new_free_list prev m)"

definition coalesce_free_list :: "Pool \<Rightarrow> mem \<Rightarrow> bool \<Rightarrow> (fault + Pool \<times> mem) option" where
  "coalesce_free_list pool m malloc_ok =
     (case free_list_walk m (free_list pool) of
        None \<Rightarrow> None
      | Some arr0 \<Rightarrow>
          if length arr0 = 0 then Some (Inr (pool, m))
          else if \<not> malloc_ok then Some (Inr (pool, m))
          else
            (case merge_adjacent m (sort arr0) 0 of
               Inl f \<Rightarrow> Some (Inl f)
             | Inr (m1, arr1) \<Rightarrow>
                 (case relink arr1 0 0 m1 of
                    (new_free_list, prev, m2) \<Rightarrow>
                      Some (Inr (pool\<lparr>free_list := new_free_list\<rparr>,
                                 if prev \<noteq> 0 then write64 m2 (prev + 16) 0 else m2)))))"

definition pool_free ::
  "Pool option \<Rightarrow> mem \<Rightarrow> addr \<Rightarrow> bool \<Rightarrow> (fault + Pool option \<times> mem) option" where
  "pool_free h m ptr malloc_ok =
     (case h of
        None \<Rightarrow> Some (Inr (None, m))
      | Some pool \<Rightarrow>
          if ptr = 0 then Some (Inr (Some pool, m))
          else
            let header_addr = ptr - HEADER_SIZE;
                m1 = write64 m (header_addr + 16) (free_list pool);
                pool1 = pool\<lparr>free_list := header_addr\<rparr>
            in (case coalesce_free_list pool1 m1 malloc_ok of
                  None \<Rightarrow> None
                | Some (Inl f) \<Rightarrow> Some (Inl f)
                | Some (Inr (pool2, m2)) \<Rightarrow> Some (Inr (Some pool2, m2))))"

section \<open>Pool: the lists in memory, and what a new region needs\<close>

text \<open>
  \<open>linked m off p xs\<close>: starting at \<open>p\<close> and following the pointer stored \<open>off\<close> bytes into
  each node, one meets exactly the nodes \<open>xs\<close> and then null.  With \<open>off = 16\<close> this is the
  free list (\<^verbatim>\<open>next_free\<close>), with \<open>off = 24\<close> the region chain (\<^verbatim>\<open>next\<close>).
\<close>

primrec linked :: "mem \<Rightarrow> 64 word \<Rightarrow> addr \<Rightarrow> addr list \<Rightarrow> bool" where
  "linked m off p [] \<longleftrightarrow> p = 0"
| "linked m off p (x # xs) \<longleftrightarrow> p = x \<and> x \<noteq> 0 \<and> linked m off (read64 m (x + off)) xs"

text \<open>The size \<^verbatim>\<open>pool_alloc\<close> asks for when it grows: \<^verbatim>\<open>new_block_size\<close> in the source.\<close>

definition new_block_size :: "Pool \<Rightarrow> 64 word \<Rightarrow> 64 word" where
  "new_block_size pool alloc_size =
     (if initial_block_size pool < alloc_size + HEADER_SIZE then alloc_size + HEADER_SIZE
      else initial_block_size pool)"

text \<open>
  The memory after \<^verbatim>\<open>pool_alloc\<close> has filled in the \<^verbatim>\<open>PoolBlock\<close> at \<open>new_block\<close> and chained
  it behind the last region of the chain \<open>bs\<close>.
\<close>

definition chain_new_block :: "mem \<Rightarrow> addr \<Rightarrow> 64 word \<Rightarrow> addr list \<Rightarrow> mem" where
  "chain_new_block m new_block sz bs =
     (let m4 = writes [(new_block, (new_block + 32 + 15) AND NOT 15), (new_block + 8, sz),
                       (new_block + 16, 0), (new_block + 24, 0)] m
      in if bs = [] then m4 else write64 m4 (last bs + 24) new_block)"

text \<open>
  A region whose next aligned payload address does not wrap around the address space:
  \<open>base + offset + 32 + alignment \<le> 2 ^ 64\<close>.
\<close>

definition region_fits :: "mem \<Rightarrow> addr \<Rightarrow> 64 word \<Rightarrow> bool" where
  "region_fits m b al \<longleftrightarrow> unat (read64 m b) + unat (read64 m (b + 16)) + 32 + unat al \<le> 2 ^ 64"

text \<open>
  What the operating system guarantees of a new region at \<open>nb\<close> with \<open>sz\<close> usable bytes: it
  lies inside the address space, with room for the alignment of its first payload, and it
  does not overlap the \<^verbatim>\<open>PoolBlock\<close> header of any region of the chain \<open>bs\<close>.
\<close>

definition new_block_fresh :: "addr \<Rightarrow> 64 word \<Rightarrow> 64 word \<Rightarrow> addr list \<Rightarrow> bool" where
  "new_block_fresh nb sz al bs \<longleftrightarrow>
     unat nb + 47 + unat sz \<le> 2 ^ 64 \<and> unat nb + 79 + unat al \<le> 2 ^ 64 \<and>
     (\<forall>b\<in>set bs. unat b + 32 \<le> 2 ^ 64 \<and>
        (unat b + 32 \<le> unat nb \<or> unat nb + 47 + unat sz \<le> unat b))"

text \<open>The \<^verbatim>\<open>PoolBlock\<close> headers of a chain do not overlap one another.\<close>

definition headers_apart :: "addr list \<Rightarrow> bool" where
  "headers_apart bs \<longleftrightarrow>
     (\<forall>b\<in>set bs. \<forall>b'\<in>set bs. b \<noteq> b' \<longrightarrow> unat b + 32 \<le> unat b' \<or> unat b' + 32 \<le> unat b)"



section \<open>Concrete inputs\<close>

text \<open>
  An uninitialised \<^verbatim>\<open>Slab\<close> struct, a memory of zero bytes (what the operating system
  hands out), and an operating system that answers every request with the same address.
\<close>

definition slab0 :: Slab where
  "slab0 = \<lparr>memory = 0, object_size = 0, total_objects = 0, Slab.free_list = 0\<rparr>"

definition mem0 :: mem where
  "mem0 = (\<lambda>_. 0)"

definition os_at :: "addr \<Rightarrow> 64 word \<Rightarrow> addr" where
  "os_at a = (\<lambda>_. a)"

definition pool0 :: Pool where
  "pool0 = \<lparr>block_head = 0, free_list = 0, initial_block_size = 0\<rparr>"

text \<open>The pool that \<^verbatim>\<open>pool_init(&pool, 4096)\<close> builds in a region at \<open>0x10000\<close>.\<close>

definition pool4096 :: Pool where
  "pool4096 = \<lparr>block_head = 0x10000, free_list = 0, initial_block_size = 4096\<rparr>"

definition mem4096 :: mem where
  "mem4096 = write64 (write64 (write64 (write64 mem0 0x10000 0x10020) 0x10008 4096) 0x10010 0) 0x10018 0"

text \<open>
  The memory after a second region of usable size \<open>sz\<close>, acquired at \<open>0x20000\<close>, has been
  chained behind the region at \<open>0x10000\<close>.
\<close>

definition mem_grown :: "64 word \<Rightarrow> mem" where
  "mem_grown sz =
     writes [(0x20000, 0x20020), (0x20008, sz), (0x20010, 0), (0x20018, 0), (0x10018, 0x20000)]
       mem4096"

text \<open>
  The memory after \<^verbatim>\<open>a = pool_alloc(P, 64, 16)\<close>, then after \<^verbatim>\<open>b = pool_alloc(P, 64, 16)\<close>,
  then after \<^verbatim>\<open>pool_free(P, a)\<close>, in the pool \<open>P\<close> above: \<open>a = 0x10040\<close> and \<open>b = 0x100A0\<close>.
\<close>

definition mem_a :: mem where
  "mem_a = writes [(0x10010, 96), (0x10020, 64), (0x10028, 0), (0x10030, 0)] mem4096"



text \<open>The slabs of two and of three 64-byte cells that \<^verbatim>\<open>slab_init\<close> builds at \<open>0x10000\<close>.\<close>

definition slab2 :: Slab where
  "slab2 = \<lparr>memory = 0x10000, object_size = 64, total_objects = 2, Slab.free_list = 0x10000\<rparr>"

definition mem2 :: mem where
  "mem2 = write64 (link_cells 0x10000 64 1 mem0) 0x10040 0"

definition slab3 :: Slab where
  "slab3 = \<lparr>memory = 0x10000, object_size = 64, total_objects = 3, Slab.free_list = 0x10000\<rparr>"

definition mem3 :: mem where
  "mem3 = write64 (link_cells 0x10000 64 2 mem0) 0x10080 0"

section \<open>Words: rounding down to a power of two\<close>

lemma and_not_mask_push_drop:
  fixes x :: "'a::len word"
  shows "x AND NOT (mask k) = push_bit k (drop_bit k x)"
  by (rule bit_word_eqI) (auto simp: bit_simps)

lemma dvd_unat_push_bit:
  fixes y :: "'a::len word"
  shows "2 ^ k dvd unat (push_bit k y)"
proof (cases "k < LENGTH('a)")
  case True
  have "(2::nat) ^ k dvd 2 ^ LENGTH('a)"
    using True by (simp add: le_imp_power_dvd)
  moreover have "unat (push_bit k y) = (unat y * 2 ^ k) mod 2 ^ LENGTH('a)"
    unfolding unsigned_push_bit_eq by (simp add: take_bit_eq_mod push_bit_eq_mult)
  ultimately show ?thesis
    by (simp add: dvd_mod)
next
  case False
  then have "push_bit k y = 0"
    by (simp add: push_bit_word_beyond)
  then show ?thesis by simp
qed

lemma unat_and_not_mask_bounds:
  fixes x :: "'a::len word"
  shows "unat (x AND NOT (mask k)) \<le> unat x" "unat x < unat (x AND NOT (mask k)) + 2 ^ k"
proof -
  have id: "(x AND NOT (mask k)) + take_bit k x = x"
    by (simp add: and_not_mask_push_drop bits_ident)
  show "unat (x AND NOT (mask k)) \<le> unat x"
    by (simp add: word_and_le2 word_le_nat_alt [symmetric])
  have "unat (take_bit k x) < 2 ^ k"
    by (simp add: unsigned_take_bit_eq take_bit_nat_less_exp)
  moreover have "unat x \<le> unat (x AND NOT (mask k)) + unat (take_bit k x)"
  proof -
    have "unat ((x AND NOT (mask k)) + take_bit k x)
        \<le> unat (x AND NOT (mask k)) + unat (take_bit k x)"
      by (simp add: unat_word_ariths)
    then show ?thesis
      by (simp only: id)
  qed
  ultimately show "unat x < unat (x AND NOT (mask k)) + 2 ^ k"
    by linarith
qed

lemma fifteen_mask: "(15 :: 64 word) = mask 4"
  by (simp add: mask_eq_exp_minus_1)

section \<open>Slab: the cell size\<close>

lemma align_size_dvd: "16 dvd unat (align_size sz)"
  using dvd_unat_push_bit [of 4 "drop_bit 4 (sz + 15)"]
  by (simp add: align_size_def fifteen_mask and_not_mask_push_drop)

lemma align_size_bounds:
  assumes "unat sz + 15 < 2 ^ 64"
  shows "unat sz \<le> unat (align_size sz)" "unat (align_size sz) < unat sz + 16"
proof -
  have u: "unat (sz + 15) = unat sz + 15"
    using assms by (simp add: unat_word_ariths)
  show "unat sz \<le> unat (align_size sz)"
    using unat_and_not_mask_bounds(2) [of "sz + 15" 4] u
    by (simp add: align_size_def fifteen_mask)
  show "unat (align_size sz) < unat sz + 16"
    using unat_and_not_mask_bounds(1) [of "sz + 15" 4] u
    by (simp add: align_size_def fifteen_mask)
qed

lemma align_size_ge_16:
  assumes "8 \<le> sz" "unat sz + 15 < 2 ^ 64"
  shows "16 \<le> unat (align_size sz)"
proof -
  have "8 \<le> unat sz"
    using assms(1) by (simp add: word_le_nat_alt)
  then have "0 < unat (align_size sz)"
    using align_size_bounds(1) [OF assms(2)] by linarith
  with align_size_dvd [of sz] show ?thesis
    by (auto elim!: dvdE)
qed

lemma slab_init_success:
  assumes "slab_init (Some s0) n osz os m = (1, Some s, m')"
  shows "n \<noteq> 0" "8 \<le> osz" "os (align_size osz * n) \<noteq> 0"
    "s = s0\<lparr>object_size := align_size osz, total_objects := n,
         memory := os (align_size osz * n), Slab.free_list := os (align_size osz * n)\<rparr>"
    "m' = write64 (link_cells (os (align_size osz * n)) (align_size osz) (unat (n - 1)) m)
            (os (align_size osz * n) + (n - 1) * align_size osz) 0"
  using assms by (auto simp: slab_init_def Let_def split: if_splits)

text \<open>
  C6, as the code has it.  A successful \<^verbatim>\<open>slab_init(capacity, object_size)\<close> had
  \<open>capacity \<ge> 1\<close> and \<open>object_size \<ge> 8\<close>; its cell size is \<open>(object_size + 15) AND NOT 15\<close>,
  a multiple of 16; when \<open>object_size + 15\<close> does not overflow 64 bits this is
  \<open>object_size\<close> rounded up to the next multiple of 16, and at least 16 (not 32: the guard
  only asks for 8 bytes); and the region was requested from the operating system with
  exactly \<open>cell_size * capacity\<close> bytes, the product taken modulo \<open>2 ^ 64\<close>.
\<close>

theorem slab_init_cell_size:
  assumes "slab_init (Some s0) n osz os m = (1, Some s, m')"
  shows "n \<noteq> 0 \<and> 8 \<le> osz \<and>
         object_size s = align_size osz \<and> 16 dvd unat (object_size s) \<and>
         (unat osz + 15 < 2 ^ 64 \<longrightarrow>
            unat osz \<le> unat (object_size s) \<and> unat (object_size s) < unat osz + 16 \<and>
            16 \<le> unat (object_size s)) \<and>
         total_objects s = n \<and>
         memory s = os (object_size s * n) \<and> memory s \<noteq> 0"
proof -
  note ok = slab_init_success [OF assms]
  have cs: "object_size s = align_size osz"
    by (simp add: ok(4))
  show ?thesis
    using ok(1,2,3) align_size_dvd [of osz] align_size_bounds [of osz]
      align_size_ge_16 [of osz]
    by (simp add: cs) (simp add: ok(4))
qed

theorem slab_init_cell_size_witness:
  "slab_init (Some slab0) 3 64 (os_at 0x10000) mem0 =
     (1, Some (the (fst (snd (slab_init (Some slab0) 3 64 (os_at 0x10000) mem0)))),
      snd (snd (slab_init (Some slab0) 3 64 (os_at 0x10000) mem0))) \<and>
   object_size (the (fst (snd (slab_init (Some slab0) 3 64 (os_at 0x10000) mem0)))) = 64 \<and>
   memory (the (fst (snd (slab_init (Some slab0) 3 64 (os_at 0x10000) mem0)))) =
     os_at 0x10000 (64 * 3)"
proof -
  have run: "slab_init (Some slab0) 3 64 (os_at 0x10000) mem0 =
     (1, Some (the (fst (snd (slab_init (Some slab0) 3 64 (os_at 0x10000) mem0)))),
      snd (snd (slab_init (Some slab0) 3 64 (os_at 0x10000) mem0)))"
    by (simp add: slab_init_def os_at_def Let_def)
  have "align_size 64 = 64"
    by (simp add: align_size_def)
  with slab_init_cell_size [OF run] run show ?thesis
    by simp
qed

text \<open>
  The claim's bound of 32 bytes fails: \<^verbatim>\<open>slab_init(1, 8)\<close> succeeds with 16-byte cells.
\<close>

theorem slab_init_cell_size_counterexample:
  "fst (slab_init (Some slab0) 1 8 (os_at 0x10000) mem0) = 1 \<and>
   map_option object_size (fst (snd (slab_init (Some slab0) 1 8 (os_at 0x10000) mem0))) = Some 16 \<and>
   (16 :: 64 word) < 32"
  by (simp add: slab_init_def os_at_def align_size_def Let_def)

section \<open>The bulk fill writes every byte of the buffer\<close>

lemma memset_zero_len: "memset m p v 0 = m"
  by (simp add: memset_def)

lemma less_sum_split:
  fixes a b d :: "64 word"
  assumes "unat a + unat b < 2 ^ 64"
  shows "(d - a < b \<or> d < a) = (d < a + b)"
proof -
  have ab: "unat (a + b) = unat a + unat b"
    using assms by (simp add: unat_add_lem [THEN iffD1])
  show ?thesis
  proof (cases "d < a")
    case True
    then have "unat d < unat a + unat b"
      by (simp add: word_less_nat_alt)
    with True show ?thesis
      by (simp add: word_less_nat_alt ab)
  next
    case False
    then have le: "a \<le> d"
      by simp
    then have "unat (d - a) = unat d - unat a" "unat a \<le> unat d"
      by (simp_all add: unat_sub word_le_nat_alt)
    with False show ?thesis
      by (simp add: word_less_nat_alt ab) linarith
  qed
qed

lemma memset_append:
  assumes "unat a + unat b < 2 ^ 64"
  shows "memset (memset m p v a) (p + a) v b = memset m p v (a + b)"
proof
  fix x
  have "(x - (p + a) < b \<or> x - p < a) = (x - p < a + b)"
    using less_sum_split [OF assms, of "x - p"] by (simp only: diff_diff_eq)
  then show "memset (memset m p v a) (p + a) v b x = memset m p v (a + b) x"
    by (auto simp: memset_def)
qed

lemma avx_fill_memset:
  assumes "k * 32 < 2 ^ 64"
  shows "avx_fill m p v k = memset m p v (of_nat k * 32)"
  using assms
proof (induction k)
  case 0
  then show ?case by (simp add: memset_zero_len)
next
  case (Suc k)
  have k: "k * 32 + 32 < 2 ^ 64" using Suc.prems by simp
  have u: "unat (of_nat k * 32 :: 64 word) = k * 32"
    using k by (simp add: unat_word_ariths unat_of_nat)
  have "avx_fill m p v (Suc k) = memset (memset m p v (of_nat k * 32)) (p + of_nat k * 32) v 32"
    using Suc.IH k by simp
  also have "\<dots> = memset m p v (of_nat k * 32 + 32)"
    by (rule memset_append) (use u k in simp)
  finally show ?case
    by (simp add: algebra_simps)
qed

lemma div32_times: "unat (n div 32 :: 64 word) * 32 < 2 ^ 64"
proof -
  have "unat (n div 32) * 32 \<le> unat n"
    by (simp add: unat_div)
  moreover have "unat n < 2 ^ 64"
    using unsigned_less [of n] by simp
  ultimately show ?thesis by linarith
qed

lemma unat_split_sum:
  fixes a n :: "64 word"
  assumes "a \<le> n"
  shows "unat a + unat (n - a) < 2 ^ 64"
proof -
  have "unat a + unat (n - a) = unat n"
    using assms by (simp add: unat_sub word_le_nat_alt)
  then show ?thesis
    using unsigned_less [of n] by simp
qed

lemma body_tail:
  fixes n :: "64 word"
  shows "(if n mod 32 \<noteq> 0
          then memset (avx_fill m p v (unat (n div 32))) (p + (n - n mod 32)) v (n mod 32)
          else avx_fill m p v (unat (n div 32))) = memset m p v n"
proof -
  have d: "n div 32 * 32 = n - n mod 32"
    by (simp add: minus_mod_eq_div_mult)
  have le: "n - n mod 32 \<le> n"
    by (simp add: word_le_nat_alt unat_sub unat_mod)
  have "unat (n - n mod 32) + unat (n - (n - n mod 32)) < 2 ^ 64"
    using le by (rule unat_split_sum)
  then have "memset (memset m p v (n - n mod 32)) (p + (n - n mod 32)) v (n mod 32)
      = memset m p v (n - n mod 32 + n mod 32)"
    using memset_append [of "n - n mod 32" "n mod 32" m p v] by simp
  then have *: "memset (avx_fill m p v (unat (n div 32))) (p + (n - n mod 32)) v (n mod 32)
      = memset m p v n"
    by (simp add: avx_fill_memset [OF div32_times] d)
  show ?thesis
  proof (cases "n mod 32 = 0")
    case True
    with * show ?thesis by (simp add: memset_zero_len)
  next
    case False
    with * show ?thesis by simp
  qed
qed

lemma simd_memset_eq: "simd_memset m ptr val sz = memset m ptr (ucast val) sz"
proof (cases "ptr mod 32 = 0")
  case True
  have "simd_memset m ptr val sz =
     (if sz mod 32 \<noteq> 0
      then memset (avx_fill m ptr (ucast val) (unat (sz div 32))) (ptr + (sz - sz mod 32))
             (ucast val) (sz mod 32)
      else avx_fill m ptr (ucast val) (unat (sz div 32)))"
    using True by (simp only: simd_memset_def Let_def if_False not_True_eq_False simp_thms)
  then show ?thesis
    by (simp only: body_tail)
next
  case False
  define ab where "ab = (if 32 - ptr mod 32 > sz then sz else 32 - ptr mod 32)"
  have le: "ab \<le> sz"
    by (simp add: ab_def not_less)
  have "memset (memset m ptr (ucast val) ab) (ptr + ab) (ucast val) (sz - ab)
     = memset m ptr (ucast val) (ab + (sz - ab))"
    using le by (intro memset_append unat_split_sum)
  then have *: "memset (memset m ptr (ucast val) ab) (ptr + ab) (ucast val) (sz - ab)
     = memset m ptr (ucast val) sz"
    by simp
  have "simd_memset m ptr val sz =
     (if (sz - ab) mod 32 \<noteq> 0
      then memset (avx_fill (memset m ptr (ucast val) ab) (ptr + ab) (ucast val)
             (unat ((sz - ab) div 32))) (ptr + ab + ((sz - ab) - (sz - ab) mod 32))
             (ucast val) ((sz - ab) mod 32)
      else avx_fill (memset m ptr (ucast val) ab) (ptr + ab) (ucast val)
             (unat ((sz - ab) div 32)))"
    using False by (simp only: simd_memset_def Let_def ab_def if_True simp_thms)
  then show ?thesis
    by (simp only: body_tail *)
qed

section \<open>Reading after writing\<close>

lemma byte_slice_at:
  fixes v :: "64 word" and r :: nat
  assumes "r < 8"
    and "n = r \<or> n = 8 + r \<or> n = 16 + r \<or> n = 24 + r \<or> n = 32 + r \<or> n = 40 + r \<or> n = 48 + r \<or> n = 56 + r"
  shows "(n < 8 \<and> bit v n \<or>
          8 \<le> n \<and> n - 8 < 64 \<and> n - 8 < 8 \<and> bit v (8 + (n - 8)) \<or>
          16 \<le> n \<and> n - 16 < 64 \<and> n - 16 < 8 \<and> bit v (16 + (n - 16)) \<or>
          24 \<le> n \<and> n - 24 < 64 \<and> n - 24 < 8 \<and> bit v (24 + (n - 24)) \<or>
          32 \<le> n \<and> n - 32 < 64 \<and> n - 32 < 8 \<and> bit v (32 + (n - 32)) \<or>
          40 \<le> n \<and> n - 40 < 64 \<and> n - 40 < 8 \<and> bit v (40 + (n - 40)) \<or>
          48 \<le> n \<and> n - 48 < 64 \<and> n - 48 < 8 \<and> bit v (48 + (n - 48)) \<or>
          56 \<le> n \<and> n - 56 < 64 \<and> n - 56 < 8 \<and> bit v (56 + (n - 56))) = bit v n"
  using assms(2)
proof (elim disjE)
  assume "n = r"
  with assms(1) show ?thesis by simp
next
  assume "n = 8 + r"
  with assms(1) show ?thesis by simp
next
  assume "n = 16 + r"
  with assms(1) show ?thesis by simp
next
  assume "n = 24 + r"
  with assms(1) show ?thesis by simp
next
  assume "n = 32 + r"
  with assms(1) show ?thesis by simp
next
  assume "n = 40 + r"
  with assms(1) show ?thesis by simp
next
  assume "n = 48 + r"
  with assms(1) show ?thesis by simp
next
  assume "n = 56 + r"
  with assms(1) show ?thesis by simp
qed

lemma byte_slices:
  fixes v :: "64 word" and n :: nat
  assumes "n < 64"
  shows "(n < 8 \<and> bit v n \<or>
          8 \<le> n \<and> n - 8 < 64 \<and> n - 8 < 8 \<and> bit v (8 + (n - 8)) \<or>
          16 \<le> n \<and> n - 16 < 64 \<and> n - 16 < 8 \<and> bit v (16 + (n - 16)) \<or>
          24 \<le> n \<and> n - 24 < 64 \<and> n - 24 < 8 \<and> bit v (24 + (n - 24)) \<or>
          32 \<le> n \<and> n - 32 < 64 \<and> n - 32 < 8 \<and> bit v (32 + (n - 32)) \<or>
          40 \<le> n \<and> n - 40 < 64 \<and> n - 40 < 8 \<and> bit v (40 + (n - 40)) \<or>
          48 \<le> n \<and> n - 48 < 64 \<and> n - 48 < 8 \<and> bit v (48 + (n - 48)) \<or>
          56 \<le> n \<and> n - 56 < 64 \<and> n - 56 < 8 \<and> bit v (56 + (n - 56))) = bit v n"
proof -
  have "n < 8 \<or> (8 \<le> n \<and> n < 16) \<or> (16 \<le> n \<and> n < 24) \<or> (24 \<le> n \<and> n < 32) \<or>
      (32 \<le> n \<and> n < 40) \<or> (40 \<le> n \<and> n < 48) \<or> (48 \<le> n \<and> n < 56) \<or> (56 \<le> n \<and> n < 64)"
    using assms by linarith
  then show ?thesis
  proof (elim disjE conjE)
    assume "n < 8"
    then show ?thesis by (intro byte_slice_at [of n]) simp_all
  next
    assume "8 \<le> n" "n < 16"
    then show ?thesis by (intro byte_slice_at [of "n - 8"]) simp_all
  next
    assume "16 \<le> n" "n < 24"
    then show ?thesis by (intro byte_slice_at [of "n - 16"]) simp_all
  next
    assume "24 \<le> n" "n < 32"
    then show ?thesis by (intro byte_slice_at [of "n - 24"]) simp_all
  next
    assume "32 \<le> n" "n < 40"
    then show ?thesis by (intro byte_slice_at [of "n - 32"]) simp_all
  next
    assume "40 \<le> n" "n < 48"
    then show ?thesis by (intro byte_slice_at [of "n - 40"]) simp_all
  next
    assume "48 \<le> n" "n < 56"
    then show ?thesis by (intro byte_slice_at [of "n - 48"]) simp_all
  next
    assume "56 \<le> n" "n < 64"
    then show ?thesis by (intro byte_slice_at [of "n - 56"]) simp_all
  qed
qed

lemma read64_write64_same: "read64 (write64 m a v) a = v"
  apply (simp add: read64_def write64_def)
  apply (rule bit_word_eqI)
  apply (simp add: bit_simps byte_slices)
  done

text \<open>Two 8-byte accesses do not overlap when the addresses are 8 apart in both directions.\<close>

lemma apart_byte:
  fixes a b i :: addr
  assumes "8 \<le> b - a" "8 \<le> a - b" and "i < 8"
  shows "\<not> (b + i - a < 8)"
  using assms by uint_arith

lemma write64_other_byte:
  assumes "8 \<le> x - a"
  shows "write64 m a v x = m x"
proof -
  have "\<not> x - a < 8"
    using assms by (rule leD)
  then show ?thesis
    by (simp only: write64_def if_False)
qed

lemma read64_write64_other:
  assumes "8 \<le> b - a" "8 \<le> a - b"
  shows "read64 (write64 m a v) b = read64 m b"
proof -
  have o: "write64 m a v (b + i) = m (b + i)" if "i < 8" for i
    by (rule write64_other_byte) (rule leI, rule apart_byte [OF assms that])
  have w1: "write64 m a v (b + 1) = m (b + 1)" by (rule o) simp
  have w2: "write64 m a v (b + 2) = m (b + 2)" by (rule o) simp
  have w3: "write64 m a v (b + 3) = m (b + 3)" by (rule o) simp
  have w4: "write64 m a v (b + 4) = m (b + 4)" by (rule o) simp
  have w5: "write64 m a v (b + 5) = m (b + 5)" by (rule o) simp
  have w6: "write64 m a v (b + 6) = m (b + 6)" by (rule o) simp
  have w7: "write64 m a v (b + 7) = m (b + 7)" by (rule o) simp
  have w0: "write64 m a v b = m b"
    using assms(1) by (rule write64_other_byte)
  show ?thesis
    by (simp only: read64_def w0 w1 w2 w3 w4 w5 w6 w7)
qed

lemma apartI:
  fixes a b :: addr
  assumes "unat a + 8 \<le> unat b" "unat b + 8 \<le> 2 ^ 64"
  shows "8 \<le> b - a" "8 \<le> a - b"
proof -
  have le: "a \<le> b" and nle: "\<not> unat b \<le> unat a"
    using assms by (simp_all add: word_le_nat_alt)
  have "unat (b - a) = unat b - unat a"
    using le by (rule unat_sub)
  then show "8 \<le> b - a"
    using assms by (simp add: word_le_nat_alt)
  have "unat (a - b) = unat a + 2 ^ 64 - unat b"
    using nle by (simp add: unat_sub_if_size word_size)
  then show "8 \<le> a - b"
    using assms by (simp add: word_le_nat_alt)
qed

lemma unat_lt_2p64: "unat (x :: 64 word) < 2 ^ 64"
  using unsigned_less [of x] by simp

lemma read64_zero_fill:
  assumes "unat (a - p) + 8 \<le> unat n"
  shows "read64 (memset m p 0 n) a = 0"
proof -
  have "memset m p 0 n (a + i) = 0" if "i < 8" for i :: addr
  proof -
    have "unat i < 8"
      using that by (simp add: word_less_nat_alt)
    then have "unat (a - p) + unat i < 2 ^ 64"
      using assms unat_lt_2p64 [of n] by linarith
    then have "unat (a - p + i) = unat (a - p) + unat i"
      by (simp add: unat_add_lem [THEN iffD1])
    then have "unat (a - p + i) < unat n"
      using assms \<open>unat i < 8\<close> by linarith
    then have "a + i - p < n"
      by (simp add: word_less_nat_alt add_diff_eq diff_add_eq)
    then show ?thesis
      by (simp add: memset_def)
  qed
  note z = this
  have z1: "memset m p 0 n (a + 1) = 0" by (rule z) simp
  have z2: "memset m p 0 n (a + 2) = 0" by (rule z) simp
  have z3: "memset m p 0 n (a + 3) = 0" by (rule z) simp
  have z4: "memset m p 0 n (a + 4) = 0" by (rule z) simp
  have z5: "memset m p 0 n (a + 5) = 0" by (rule z) simp
  have z6: "memset m p 0 n (a + 6) = 0" by (rule z) simp
  have z7: "memset m p 0 n (a + 7) = 0" by (rule z) simp
  have z0: "memset m p 0 n a = 0"
    using z [of 0] by simp
  have "read64 (memset m p 0 n) a =
     ucast (0 :: 8 word) OR push_bit 8 (ucast (0 :: 8 word)) OR push_bit 16 (ucast (0 :: 8 word)) OR
     push_bit 24 (ucast (0 :: 8 word)) OR push_bit 32 (ucast (0 :: 8 word)) OR
     push_bit 40 (ucast (0 :: 8 word)) OR push_bit 48 (ucast (0 :: 8 word)) OR
     push_bit 56 (ucast (0 :: 8 word))"
    by (simp only: read64_def z0 z1 z2 z3 z4 z5 z6 z7)
  then show ?thesis
    by simp
qed

section \<open>Slab: the cells of a region\<close>

lemma cells_ok_bounds:
  assumes "cells_ok base cs n" "i \<le> n"
  shows "i * unat cs \<le> n * unat cs" "unat base + i * unat cs + 32 \<le> 2 ^ 64" "i < 2 ^ 64"
proof -
  show le: "i * unat cs \<le> n * unat cs"
    using assms(2) by (rule mult_le_mono1)
  show "unat base + i * unat cs + 32 \<le> 2 ^ 64"
    using assms(1) le unfolding cells_ok_def by linarith
  have "n \<le> n * unat cs"
    using assms(1) unfolding cells_ok_def by simp
  then show "i < 2 ^ 64"
    using assms unfolding cells_ok_def by linarith
qed

lemma unat_cell_offset:
  assumes "cells_ok base cs n" "i \<le> n"
  shows "unat (of_nat i * cs :: 64 word) = i * unat cs"
proof -
  note b = cells_ok_bounds [OF assms]
  have "unat (of_nat i :: 64 word) = i"
    using b(3) by (simp add: unat_of_nat)
  moreover have "i * unat cs < 2 ^ 64"
    using b(2) by linarith
  ultimately show ?thesis
    using unat_mult_lem [of "of_nat i :: 64 word" cs] by simp
qed

lemma unat_cell:
  assumes "cells_ok base cs n" "i \<le> n"
  shows "unat (base + of_nat i * cs) = unat base + i * unat cs"
proof -
  have "unat base + unat (of_nat i * cs :: 64 word) < 2 ^ 64"
    using cells_ok_bounds(2) [OF assms] unat_cell_offset [OF assms] by linarith
  then show ?thesis
    using unat_cell_offset [OF assms] by (simp add: unat_add_lem [THEN iffD1])
qed

lemma cell_nonzero:
  assumes "cells_ok base cs n" "i \<le> n"
  shows "base + of_nat i * cs \<noteq> 0"
proof
  assume "base + of_nat i * cs = 0"
  then have "unat (base + of_nat i * cs) = 0"
    by simp
  then have "unat base = 0"
    using unat_cell [OF assms] by simp
  then show False
    using assms(1) by (simp add: cells_ok_def unat_eq_zero)
qed

lemma user_pointer_nonzero:
  assumes "cells_ok base cs n" "i < n"
  shows "base + of_nat i * cs + 32 \<noteq> 0"
proof
  assume z: "base + of_nat i * cs + 32 = 0"
  have i: "i \<le> n" and si: "Suc i \<le> n"
    using assms(2) by simp_all
  have "unat base + i * unat cs + unat cs + 32 \<le> 2 ^ 64"
    using cells_ok_bounds(2) [OF assms(1) si] by simp
  moreover have "8 \<le> unat cs"
    using assms(1) by (simp add: cells_ok_def)
  ultimately have "unat (base + of_nat i * cs) + unat (32 :: 64 word) < 2 ^ 64"
    using unat_cell [OF assms(1) i] by simp
  then have "unat (base + of_nat i * cs + 32) = unat (base + of_nat i * cs) + 32"
    by (simp add: unat_add_lem [THEN iffD1])
  with z show False
    by simp
qed

lemma cells_apart_lt:
  assumes "cells_ok base cs n" "i < j" "j \<le> n"
  shows "8 \<le> (base + of_nat j * cs) - (base + of_nat i * cs)"
    "8 \<le> (base + of_nat i * cs) - (base + of_nat j * cs)"
proof -
  have i: "i \<le> n" using assms by simp
  have "i * unat cs + unat cs \<le> j * unat cs"
    using mult_le_mono1 [of "Suc i" j "unat cs"] assms(2) by simp
  moreover have "8 \<le> unat cs"
    using assms(1) by (simp add: cells_ok_def)
  ultimately have a: "unat (base + of_nat i * cs) + 8 \<le> unat (base + of_nat j * cs)"
    using unat_cell [OF assms(1) i] unat_cell [OF assms(1,3)] by linarith
  have b: "unat (base + of_nat j * cs) + 8 \<le> 2 ^ 64"
    using cells_ok_bounds(2) [OF assms(1,3)] unat_cell [OF assms(1,3)] by linarith
  show "8 \<le> (base + of_nat j * cs) - (base + of_nat i * cs)"
    using a b by (rule apartI)
  show "8 \<le> (base + of_nat i * cs) - (base + of_nat j * cs)"
    using a b by (rule apartI)
qed

lemma read64_write64_cell:
  assumes "cells_ok base cs n" "i \<le> n" "j \<le> n" "i \<noteq> j"
  shows "read64 (write64 m (base + of_nat i * cs) v) (base + of_nat j * cs)
      = read64 m (base + of_nat j * cs)"
proof (cases "i < j")
  case True
  show ?thesis
    by (rule read64_write64_other) (rule cells_apart_lt [OF assms(1) True assms(3)])+
next
  case False
  then have lt: "j < i" using assms(4) by simp
  show ?thesis
    by (rule read64_write64_other) (rule cells_apart_lt [OF assms(1) lt assms(2)])+
qed

lemma link_cells_read:
  assumes "cells_ok base cs n" "k \<le> n" "j \<le> n"
  shows "read64 (link_cells base cs k m) (base + of_nat j * cs) =
     (if j < k then base + (of_nat j + 1) * cs else read64 m (base + of_nat j * cs))"
  using assms(2)
proof (induction k)
  case 0
  then show ?case by simp
next
  case (Suc k)
  then have k: "k \<le> n" by simp
  show ?case
  proof (cases "j = k")
    case True
    then show ?thesis
      by (simp add: read64_write64_same)
  next
    case False
    then have "read64 (link_cells base cs (Suc k) m) (base + of_nat j * cs)
        = read64 (link_cells base cs k m) (base + of_nat j * cs)"
      using read64_write64_cell [OF assms(1) k assms(3)] by simp
    with False Suc.IH [OF k] show ?thesis
      by (simp add: less_Suc_eq)
  qed
qed

text \<open>The memory \<^verbatim>\<open>slab_init\<close> leaves: cell \<open>j\<close> links to cell \<open>j + 1\<close>, the last one to null.\<close>

lemma init_links:
  assumes "cells_ok base cs (Suc k)" "j \<le> k"
  shows "read64 (write64 (link_cells base cs k m) (base + of_nat k * cs) 0) (base + of_nat j * cs)
     = (if j < k then base + of_nat (Suc j) * cs else 0)"
proof (cases "j = k")
  case True
  then show ?thesis
    by (simp add: read64_write64_same)
next
  case False
  then have lt: "j < k" using assms(2) by simp
  have "read64 (write64 (link_cells base cs k m) (base + of_nat k * cs) 0) (base + of_nat j * cs)
      = read64 (link_cells base cs k m) (base + of_nat j * cs)"
    using assms(2) False by (intro read64_write64_cell [OF assms(1)]) simp_all
  also have "\<dots> = base + (of_nat j + 1) * cs"
    using link_cells_read [OF assms(1), of k j m] lt by simp
  finally show ?thesis
    using lt by (simp add: ac_simps)
qed


section \<open>Slab: runs of allocations\<close>

lemma slab_alloc_pop:
  assumes "Slab.free_list s \<noteq> 0"
  shows "slab_alloc (Some s) m =
     (Slab.free_list s + 32, Some (s\<lparr>Slab.free_list := read64 m (Slab.free_list s)\<rparr>))"
  using assms by (simp add: slab_alloc_def HEADER_SIZE_def Let_def)

lemma slab_alloc_empty:
  assumes "Slab.free_list s = 0"
  shows "slab_alloc (Some s) m = (0, Some s)"
  using assms by (simp add: slab_alloc_def)

lemma slab_allocs_run:
  assumes ok: "cells_ok base cs n"
    and links: "\<And>i. i < n \<Longrightarrow>
      read64 m (base + of_nat i * cs) = (if Suc i < n then base + of_nat (Suc i) * cs else 0)"
  shows "j + k \<le> n \<Longrightarrow> Slab.free_list s = (if j < n then base + of_nat j * cs else 0) \<Longrightarrow>
    slab_allocs k (Some s) m =
      (map (\<lambda>i. base + of_nat i * cs + 32) [j..<j + k],
       Some (s\<lparr>Slab.free_list := (if j + k < n then base + of_nat (j + k) * cs else 0)\<rparr>))"
proof (induction k arbitrary: j s)
  case 0
  then show ?case by simp
next
  case (Suc k)
  then have j: "j < n" "j \<le> n" by simp_all
  have fl: "Slab.free_list s = base + of_nat j * cs"
    using Suc.prems(2) j by simp
  have nz: "Slab.free_list s \<noteq> 0"
    unfolding fl by (rule cell_nonzero [OF ok j(2)])
  define s1 where "s1 = s\<lparr>Slab.free_list := read64 m (Slab.free_list s)\<rparr>"
  have pop: "slab_alloc (Some s) m = (base + of_nat j * cs + 32, Some s1)"
    using slab_alloc_pop [OF nz, of m] by (simp add: s1_def fl)
  have fl1: "Slab.free_list s1 = (if Suc j < n then base + of_nat (Suc j) * cs else 0)"
    using links [OF j(1)] by (simp add: s1_def fl)
  have "Suc j + k \<le> n"
    using Suc.prems(1) by simp
  from Suc.IH [OF this fl1]
  have rest: "slab_allocs k (Some s1) m =
      (map (\<lambda>i. base + of_nat i * cs + 32) [Suc j..<Suc j + k],
       Some (s1\<lparr>Slab.free_list := (if Suc j + k < n then base + of_nat (Suc j + k) * cs else 0)\<rparr>))" .
  have upt: "[j..<j + Suc k] = j # [Suc j..<Suc j + k]"
    by (simp add: upt_conv_Cons)
  have st: "s1\<lparr>Slab.free_list := x\<rparr> = s\<lparr>Slab.free_list := x\<rparr>" for x
    by (simp add: s1_def)
  have idx: "Suc j + k = j + Suc k"
    by simp
  show ?case
    unfolding slab_allocs.simps pop prod.case rest upt list.map st idx
    by (rule refl)
qed

text \<open>What a successful \<^verbatim>\<open>slab_init\<close> leaves behind, for a region the slab really owns.\<close>

lemma slab_init_state:
  assumes init: "slab_init (Some s0) n osz os m0 = (1, Some s, m)"
    and ok: "slab_region_ok s"
  shows "cells_ok (memory s) (object_size s) (unat n)"
    "0 < unat n" "total_objects s = n"
    "Slab.free_list s = memory s + of_nat 0 * object_size s"
    "\<And>i. i < unat n \<Longrightarrow> read64 m (memory s + of_nat i * object_size s) =
       (if Suc i < unat n then memory s + of_nat (Suc i) * object_size s else 0)"
proof -
  note st = slab_init_success [OF init]
  show tot: "total_objects s = n"
    by (simp add: st(4))
  show cok: "cells_ok (memory s) (object_size s) (unat n)"
    using ok by (simp add: slab_region_ok_def tot)
  show pos: "0 < unat n"
    using st(1) by (simp add: unat_gt_0)
  show "Slab.free_list s = memory s + of_nat 0 * object_size s"
    by (simp add: st(4))
  obtain k where k: "unat n = Suc k"
    using pos by (cases "unat n") simp_all
  have k1: "unat (n - 1) = k"
    using k st(1) by (simp add: unat_minus_one)
  have n1: "n - 1 = of_nat k"
    using k1 by (metis of_nat_unat ucast_id)
  have mem: "m = write64 (link_cells (memory s) (object_size s) k m0)
      (memory s + of_nat k * object_size s) 0"
    using k1 [unfolded n1] by (simp add: st(5) st(4) n1)
  fix i
  assume "i < unat n"
  then have "i \<le> k"
    using k by simp
  then show "read64 m (memory s + of_nat i * object_size s) =
       (if Suc i < unat n then memory s + of_nat (Suc i) * object_size s else 0)"
    using init_links [OF cok [unfolded k], of i m0] by (simp add: mem k)
qed

lemma slab_full_run:
  assumes init: "slab_init (Some s0) n osz os m0 = (1, Some s, m)"
    and ok: "slab_region_ok s" and k: "k \<le> unat n"
  shows "slab_allocs k (Some s) m =
      (map (\<lambda>i. memory s + of_nat i * object_size s + 32) [0..<k],
       Some (s\<lparr>Slab.free_list :=
         (if k < unat n then memory s + of_nat k * object_size s else 0)\<rparr>))"
proof -
  note st = slab_init_state [OF init ok]
  have "Slab.free_list s = (if 0 < unat n then memory s + of_nat 0 * object_size s else 0)"
    using st(2,4) by simp
  with slab_allocs_run [OF st(1) st(5), of 0 k s] k show ?thesis
    by simp
qed


text \<open>
  After the slab is full, \<^verbatim>\<open>slab_free\<close> makes the content of \<^verbatim>\<open>%rcx\<close> the only entry of the
  free list: the next \<^verbatim>\<open>slab_alloc\<close> returns that address plus 32, or null when the register
  holds 0, and the one after it returns null.  The freed pointer comes back only when the
  register holds \<open>p - 32\<close>.
\<close>

lemma slab_free_then_alloc:
  assumes empty: "Slab.free_list s = 0" and pnz: "p \<noteq> 0"
  shows "case slab_free (Some s) m p rcx of (h1, m1) \<Rightarrow>
           case slab_alloc h1 m1 of (q, h2) \<Rightarrow>
             q = (if rcx = 0 then 0 else rcx + 32) \<and> fst (slab_alloc h2 m1) = 0"
proof -
  define s1 where "s1 = s\<lparr>Slab.free_list := rcx\<rparr>"
  define m1 where "m1 = write64 m rcx 0"
  have fr: "slab_free (Some s) m p rcx = (Some s1, m1)"
    using pnz by (simp add: slab_free_def Let_def empty s1_def m1_def)
  have fl1: "Slab.free_list s1 = rcx"
    by (simp add: s1_def)
  show ?thesis
  proof (cases "rcx = 0")
    case True
    then have g: "slab_alloc (Some s1) m1 = (0, Some s1)"
      using fl1 by (intro slab_alloc_empty) simp
    show ?thesis
      unfolding fr using g True by simp
  next
    case False
    then have al: "slab_alloc (Some s1) m1 = (rcx + 32, Some (s1\<lparr>Slab.free_list := 0\<rparr>))"
      using slab_alloc_pop [of s1 m1] by (simp add: fl1 m1_def read64_write64_same)
    have "slab_alloc (Some (s1\<lparr>Slab.free_list := 0\<rparr>)) m1 = (0, Some (s1\<lparr>Slab.free_list := 0\<rparr>))"
      by (rule slab_alloc_empty) simp
    with False show ?thesis
      by (simp add: fr al)
  qed
qed

text \<open>
  \<^verbatim>\<open>slab_reset\<close> zeroes the links it has just written: afterwards the head cell links to
  null, so one allocation succeeds and the next one finds the list empty.
\<close>

lemma region_size:
  assumes "cells_ok base cs n" "n = unat tot" "tot \<noteq> 0"
  shows "8 \<le> unat (cs * tot)"
proof -
  have n: "n \<le> n" by simp
  have "unat (of_nat n * cs :: 64 word) = n * unat cs"
    by (rule unat_cell_offset [OF assms(1) n])
  then have u: "unat (cs * tot) = n * unat cs"
    by (simp add: assms(2) mult.commute)
  have "0 < n"
    using assms(2,3) by (simp add: unat_gt_0)
  then have "unat cs \<le> n * unat cs"
    by simp
  moreover have "8 \<le> unat cs"
    using assms(1) by (simp add: cells_ok_def)
  ultimately show ?thesis
    unfolding u by linarith
qed

lemma alloc_after_zero_fill:
  assumes ok: "slab_region_ok s" and tot: "total_objects s \<noteq> 0"
    and m': "m' = simd_memset m1 (memory s) 0 (object_size s * total_objects s)"
  shows "slab_alloc (Some (s\<lparr>Slab.free_list := memory s\<rparr>)) m' =
      (memory s + 32, Some (s\<lparr>Slab.free_list := 0\<rparr>))"
    "slab_alloc (Some (s\<lparr>Slab.free_list := 0\<rparr>)) m' = (0, Some (s\<lparr>Slab.free_list := 0\<rparr>))"
    "memory s + 32 \<noteq> 0"
proof -
  have cok: "cells_ok (memory s) (object_size s) (unat (total_objects s))"
    using ok by (simp add: slab_region_ok_def)
  have "8 \<le> unat (object_size s * total_objects s)"
    by (rule region_size [OF cok refl tot])
  then have "unat (memory s - memory s) + 8 \<le> unat (object_size s * total_objects s)"
    by simp
  then have z: "read64 m' (memory s) = 0"
    unfolding m' simd_memset_eq by (simp add: read64_zero_fill)
  have nz: "memory s \<noteq> 0"
    using cok by (simp add: cells_ok_def)
  show "slab_alloc (Some (s\<lparr>Slab.free_list := memory s\<rparr>)) m' =
      (memory s + 32, Some (s\<lparr>Slab.free_list := 0\<rparr>))"
    using slab_alloc_pop [of "s\<lparr>Slab.free_list := memory s\<rparr>" m'] nz z by simp
  show "slab_alloc (Some (s\<lparr>Slab.free_list := 0\<rparr>)) m' = (0, Some (s\<lparr>Slab.free_list := 0\<rparr>))"
    by (rule slab_alloc_empty) simp
  have "0 < unat (total_objects s)"
    using tot by (simp add: unat_gt_0)
  from user_pointer_nonzero [OF cok this]
  show "memory s + 32 \<noteq> 0"
    by simp
qed

lemma slab_reset_then_alloc:
  assumes ok: "slab_region_ok s" and tot: "total_objects s \<noteq> 0"
  shows "case slab_reset (Some s) m of (h, m') \<Rightarrow>
           slab_alloc h m' = (memory s + 32, Some (s\<lparr>Slab.free_list := 0\<rparr>)) \<and>
           slab_alloc (Some (s\<lparr>Slab.free_list := 0\<rparr>)) m' = (0, Some (s\<lparr>Slab.free_list := 0\<rparr>))"
  using alloc_after_zero_fill(1,2) [OF ok tot refl]
  by (simp add: slab_reset_def Let_def)

lemma slab_reset_mapped_then_alloc:
  assumes ok: "slab_region_ok s" and tot: "total_objects s \<noteq> 0"
  shows "case slab_reset_mapped (Some s) m of (h, m') \<Rightarrow>
           slab_alloc h m' = (memory s + 32, Some (s\<lparr>Slab.free_list := 0\<rparr>)) \<and>
           slab_alloc (Some (s\<lparr>Slab.free_list := 0\<rparr>)) m' = (0, Some (s\<lparr>Slab.free_list := 0\<rparr>))"
  using alloc_after_zero_fill(1,2) [OF ok tot refl]
  by (simp add: slab_reset_mapped_def Let_def)

section \<open>Slab: the claims\<close>

lemma init_slab2: "slab_init (Some slab0) 2 64 (os_at 0x10000) mem0 = (1, Some slab2, mem2)"
  by (simp add: slab_init_def slab0_def slab2_def mem2_def os_at_def align_size_def Let_def)

lemma init_slab3: "slab_init (Some slab0) 3 64 (os_at 0x10000) mem0 = (1, Some slab3, mem3)"
  by (simp add: slab_init_def slab0_def slab3_def mem3_def os_at_def align_size_def Let_def)

lemma slab2_ok: "slab_region_ok slab2" "slab_region_ok (slab2\<lparr>Slab.free_list := 0\<rparr>)"
  by (simp_all add: slab_region_ok_def cells_ok_def slab2_def)

lemma slab3_ok: "slab_region_ok slab3"
  by (simp add: slab_region_ok_def cells_ok_def slab3_def)

text \<open>
  C9.  After a successful \<^verbatim>\<open>slab_init\<close> of a region the slab owns, with no \<^verbatim>\<open>slab_free\<close>
  in between, the \<open>k\<close>-th \<^verbatim>\<open>slab_alloc\<close> (\<open>1 \<le> k \<le> N\<close>) succeeds and returns exactly
  \<open>base + (k - 1) * cell_size + 32\<close>: the cells are handed out in ascending address order.
\<close>

theorem slab_alloc_ascending:
  assumes "slab_init (Some s0) n osz os m0 = (1, Some s, m)"
    and "slab_region_ok s" and "1 \<le> k" and "k \<le> unat n"
  shows "length (fst (slab_allocs k (Some s) m)) = k \<and>
         fst (slab_allocs k (Some s) m) ! (k - 1) = memory s + of_nat (k - 1) * object_size s + 32 \<and>
         fst (slab_allocs k (Some s) m) ! (k - 1) \<noteq> 0"
proof -
  have run: "fst (slab_allocs k (Some s) m) =
      map (\<lambda>i. memory s + of_nat i * object_size s + 32) [0..<k]"
    by (simp add: slab_full_run [OF assms(1,2,4)])
  have k1: "k - 1 < k" "k - 1 < unat n"
    using assms(3,4) by simp_all
  have "memory s + of_nat (k - 1) * object_size s + 32 \<noteq> 0"
    by (rule user_pointer_nonzero [OF slab_init_state(1) [OF assms(1,2)] k1(2)])
  then show ?thesis
    using k1(1) by (simp add: run)
qed

theorem slab_alloc_ascending_witness:
  "slab_init (Some slab0) 3 64 (os_at 0x10000) mem0 = (1, Some slab3, mem3) \<and>
   slab_region_ok slab3 \<and> (1 :: nat) \<le> 3 \<and> 3 \<le> unat (3 :: 64 word) \<and>
   fst (slab_allocs 3 (Some slab3) mem3) ! 2 = 0x100A0"
  using slab_alloc_ascending [OF init_slab3 slab3_ok, of 3] init_slab3 slab3_ok
  by (simp add: slab3_def)

text \<open>
  A freshly initialised slab of capacity \<open>N\<close>, in a region it owns, answers \<open>N\<close> calls of
  \<^verbatim>\<open>slab_alloc\<close> with a pointer and the next one with null.  After \<^verbatim>\<open>slab_free\<close> of any one
  of the \<open>N\<close> pointers the next \<^verbatim>\<open>slab_alloc\<close> returns what \<^verbatim>\<open>%rcx\<close> held, plus 32 (null
  for 0), and the one after it returns null again.
\<close>

theorem slab_capacity:
  assumes "slab_init (Some s0) n osz os m0 = (1, Some s, m)"
    and "slab_region_ok s"
  shows "case slab_allocs (unat n) (Some s) m of (ps, h) \<Rightarrow>
           length ps = unat n \<and> (\<forall>p\<in>set ps. p \<noteq> 0) \<and> fst (slab_alloc h m) = 0 \<and>
           (\<forall>p\<in>set ps. case slab_free h m p rcx of (h1, m1) \<Rightarrow>
              case slab_alloc h1 m1 of (q, h2) \<Rightarrow>
                q = (if rcx = 0 then 0 else rcx + 32) \<and> fst (slab_alloc h2 m1) = 0)"
proof -
  note cok = slab_init_state(1) [OF assms]
  define full where "full = s\<lparr>Slab.free_list := 0\<rparr>"
  define ps where "ps = map (\<lambda>i. memory s + of_nat i * object_size s + 32) [0..<unat n]"
  have run: "slab_allocs (unat n) (Some s) m = (ps, Some full)"
    using slab_full_run [OF assms, of "unat n"] by (simp add: ps_def full_def)
  have nz: "p \<noteq> 0" if "p \<in> set ps" for p
    using that user_pointer_nonzero [OF cok] by (auto simp: ps_def)
  have empty: "fst (slab_alloc (Some full) m) = 0"
    by (simp add: slab_alloc_empty full_def)
  have again: "case slab_free (Some full) m p rcx of (h1, m1) \<Rightarrow>
      case slab_alloc h1 m1 of (q, h2) \<Rightarrow>
        q = (if rcx = 0 then 0 else rcx + 32) \<and> fst (slab_alloc h2 m1) = 0"
    if "p \<in> set ps" for p
  proof -
    have "Slab.free_list full = 0"
      by (simp add: full_def)
    from slab_free_then_alloc [OF this nz [OF that]] show ?thesis .
  qed
  have len: "length ps = unat n"
    by (simp add: ps_def)
  show ?thesis
    using nz empty again len by (simp add: run)
qed

theorem slab_capacity_witness:
  "slab_init (Some slab0) 3 64 (os_at 0x10000) mem0 = (1, Some slab3, mem3) \<and>
   slab_region_ok slab3 \<and>
   length (fst (slab_allocs (unat (3 :: 64 word)) (Some slab3) mem3)) = 3 \<and>
   0 \<notin> set (fst (slab_allocs (unat (3 :: 64 word)) (Some slab3) mem3)) \<and>
   fst (slab_alloc (snd (slab_allocs (unat (3 :: 64 word)) (Some slab3) mem3)) mem3) = 0"
  using slab_capacity [OF init_slab3 slab3_ok] init_slab3 slab3_ok
  by (auto simp: split_beta)

lemma slab3_full_run:
  "slab_allocs 3 (Some slab3) mem3 =
     ([0x10020, 0x10060, 0x100A0], Some (slab3\<lparr>Slab.free_list := 0\<rparr>))"
proof -
  have "[0..<3] = [0, Suc 0, Suc (Suc 0)]"
    by (simp add: numeral_3_eq_3)
  with slab_full_run [OF init_slab3 slab3_ok, of 3] show ?thesis
    by (simp add: slab3_def)
qed

text \<open>
  C5 fails on the code, in its second half.  A slab of three 64-byte cells is filled by three
  allocations and the fourth returns null, as claimed.  Then \<^verbatim>\<open>slab_free\<close> of the second
  pointer pushes what \<^verbatim>\<open>%rcx\<close> holds, not the freed cell: with 0 in the register the next
  \<^verbatim>\<open>slab_alloc\<close> returns null, so no further allocation succeeds; with a stack address
  in the register the next \<^verbatim>\<open>slab_alloc\<close> returns that address plus 32, which is no cell of
  the slab, and the freed cell is not handed out again.
\<close>

theorem slab_free_wrong_register:
  "slab_init (Some slab0) 3 64 (os_at 0x10000) mem0 = (1, Some slab3, mem3) \<and>
   slab_allocs 3 (Some slab3) mem3 =
     ([0x10020, 0x10060, 0x100A0], Some (slab3\<lparr>Slab.free_list := 0\<rparr>)) \<and>
   fst (slab_alloc (Some (slab3\<lparr>Slab.free_list := 0\<rparr>)) mem3) = 0 \<and>
   (case slab_free (Some (slab3\<lparr>Slab.free_list := 0\<rparr>)) mem3 0x10060 0 of (h1, m1) \<Rightarrow>
      fst (slab_alloc h1 m1) = 0) \<and>
   (case slab_free (Some (slab3\<lparr>Slab.free_list := 0\<rparr>)) mem3 0x10060 0x7FFF1E86B438 of
      (h1, m1) \<Rightarrow> case slab_alloc h1 m1 of (q, h2) \<Rightarrow>
        q = 0x7FFF1E86B458 \<and> fst (slab_alloc h2 m1) = 0)"
proof -
  have e: "Slab.free_list (slab3\<lparr>Slab.free_list := 0\<rparr>) = 0"
    by simp
  have a: "fst (slab_alloc (Some (slab3\<lparr>Slab.free_list := 0\<rparr>)) mem3) = 0"
    by (simp add: slab_alloc_empty)
  have b: "case slab_free (Some (slab3\<lparr>Slab.free_list := 0\<rparr>)) mem3 0x10060 0 of (h1, m1) \<Rightarrow>
      fst (slab_alloc h1 m1) = 0"
    using slab_free_then_alloc [OF e, where p = "0x10060" and m = mem3 and rcx = 0]
    by (simp add: split_beta)
  have c: "case slab_free (Some (slab3\<lparr>Slab.free_list := 0\<rparr>)) mem3 0x10060 0x7FFF1E86B438 of
      (h1, m1) \<Rightarrow> case slab_alloc h1 m1 of (q, h2) \<Rightarrow>
        q = 0x7FFF1E86B458 \<and> fst (slab_alloc h2 m1) = 0"
    using slab_free_then_alloc [OF e, where p = "0x10060" and m = mem3 and rcx = "0x7FFF1E86B438"]
    by (simp add: split_beta)
  from a b c show ?thesis
    by (simp only: init_slab3 slab3_full_run simp_thms)
qed

text \<open>
  C1 fails on the code.  A slab of two 64-byte cells is filled by two allocations and reset;
  the first allocation after the reset returns the first cell, the second returns null,
  although the capacity is two.  \<^verbatim>\<open>slab_reset\<close> writes the links and then zeroes the
  region, links included; both variants of the file do so.
\<close>

theorem slab_reset_loses_cells:
  "slab_init (Some slab0) 2 64 (os_at 0x10000) mem0 = (1, Some slab2, mem2) \<and>
   slab_allocs 2 (Some slab2) mem2 = ([0x10020, 0x10060], Some (slab2\<lparr>Slab.free_list := 0\<rparr>)) \<and>
   fst (slab_allocs 2 (fst (slab_reset (Some (slab2\<lparr>Slab.free_list := 0\<rparr>)) mem2))
          (snd (slab_reset (Some (slab2\<lparr>Slab.free_list := 0\<rparr>)) mem2))) = [0x10020, 0] \<and>
   fst (slab_allocs 2 (fst (slab_reset_mapped (Some (slab2\<lparr>Slab.free_list := 0\<rparr>)) mem2))
          (snd (slab_reset_mapped (Some (slab2\<lparr>Slab.free_list := 0\<rparr>)) mem2))) = [0x10020, 0]"
proof -
  have tot: "total_objects (slab2\<lparr>Slab.free_list := 0\<rparr>) \<noteq> 0"
    by (simp add: slab2_def)
  have a: "slab_allocs 2 (Some slab2) mem2 = ([0x10020, 0x10060], Some (slab2\<lparr>Slab.free_list := 0\<rparr>))"
  proof -
    have "[0..<2] = [0, Suc 0]"
      by (simp add: numeral_2_eq_2)
    with slab_full_run [OF init_slab2 slab2_ok(1), of 2] show ?thesis
      by (simp add: slab2_def)
  qed
  have two: "slab_allocs 2 h m' = (case slab_alloc h m' of (p, h1) \<Rightarrow>
      case slab_alloc h1 m' of (q, h2) \<Rightarrow> ([p, q], h2))" for h m'
    by (simp add: numeral_2_eq_2 split: prod.splits)
  have b: "fst (slab_allocs 2 (fst (slab_reset (Some (slab2\<lparr>Slab.free_list := 0\<rparr>)) mem2))
          (snd (slab_reset (Some (slab2\<lparr>Slab.free_list := 0\<rparr>)) mem2))) = [0x10020, 0]"
    using slab_reset_then_alloc [OF slab2_ok(2) tot, of mem2]
    by (simp add: two split_beta slab2_def)
  have c: "fst (slab_allocs 2 (fst (slab_reset_mapped (Some (slab2\<lparr>Slab.free_list := 0\<rparr>)) mem2))
          (snd (slab_reset_mapped (Some (slab2\<lparr>Slab.free_list := 0\<rparr>)) mem2))) = [0x10020, 0]"
    using slab_reset_mapped_then_alloc [OF slab2_ok(2) tot, of mem2]
    by (simp add: two split_beta slab2_def)
  show ?thesis
    using init_slab2 a b c by simp
qed

section \<open>Pool: runs on concrete pools\<close>

lemma init_pool4096: "pool_init (Some pool0) 4096 (os_at 0x10000) mem0 = (1, Some pool4096, mem4096)"
  by (simp add: pool_init_def pool0_def pool4096_def mem4096_def os_at_def Let_def)

lemmas rw_eval = read64_write64_same read64_write64_other

lemma mem4096_fields:
  "read64 mem4096 0x10000 = 0x10020" "read64 mem4096 0x10008 = 4096"
  "read64 mem4096 0x10010 = 0" "read64 mem4096 0x10018 = 0"
  by (simp_all add: mem4096_def rw_eval)

lemma no_free_block: "remove_free_block pool4096 m sz al = Some (Inr (0, pool4096, m))"
  by (simp add: remove_free_block_def remove_free_block_loop.simps pool4096_def)

lemma mem_grown_fields:
  "read64 (mem_grown sz) 0x10000 = 0x10020" "read64 (mem_grown sz) 0x10008 = 4096"
  "read64 (mem_grown sz) 0x10010 = 0" "read64 (mem_grown sz) 0x10018 = 0x20000"
  "read64 (mem_grown sz) 0x20000 = 0x20020" "read64 (mem_grown sz) 0x20008 = sz"
  "read64 (mem_grown sz) 0x20010 = 0" "read64 (mem_grown sz) 0x20018 = 0"
  by (simp_all add: mem_grown_def mem4096_fields rw_eval)

lemma pool4096_fields:
  "block_head pool4096 = 0x10000" "initial_block_size pool4096 = 4096" "Pool.free_list pool4096 = 0"
  by (simp_all add: pool4096_def)

lemma grow_4096:
  assumes nbs: "nbs = (if 4096 < sz + 32 then sz + 32 else 4096)"
    and fail: "alloc_from_block (mem_grown nbs) 0x20000 sz al = (0, m')"
  shows "grow pool4096 mem4096 sz al (os_at 0x20000) = Some (0, pool4096, m')"
proof -
  have "last_block m 0x10000 = Some 0x10000" if "read64 m 0x10018 = 0" for m
    using that by (subst last_block.simps) simp
  then have lb: "last_block (write64 (write64 (write64 (write64 mem4096 0x20000 0x20020) 0x20008 nbs)
      0x20010 0) 0x20018 0) 0x10000 = Some 0x10000"
    by (simp add: mem4096_fields rw_eval)
  have sz: "(if initial_block_size pool4096 < sz + HEADER_SIZE then sz + HEADER_SIZE
             else initial_block_size pool4096) = nbs"
    by (simp add: nbs pool4096_fields HEADER_SIZE_def)
  have g: "write64 (write64 (write64 (write64 (write64 mem4096 0x20000 0x20020) 0x20008 nbs)
      0x20010 0) 0x20018 0) 0x10018 0x20000 = mem_grown nbs"
    by (simp add: mem_grown_def)
  show ?thesis
    unfolding grow_def sz Let_def
    by (simp add: os_at_def pool4096_fields lb g fail)
qed

text \<open>
  C7 fails on the code for \<open>alignment = 0\<close>: the guard \<^verbatim>\<open>(alignment & (alignment - 1)) != 0\<close>
  lets zero through.  In the fresh pool of 4096 bytes, \<^verbatim>\<open>pool_alloc(P, 16, 0)\<close> finds the free
  list empty, fails to bump in the first region, acquires a second region, chains it behind
  the first, fails to bump there too and returns 0: the \<^verbatim>\<open>next\<close> field of the first region
  has changed from null to \<open>0x20000\<close>.
\<close>

theorem pool_alloc_zero_alignment_grows:
  "pool_init (Some pool0) 4096 (os_at 0x10000) mem0 = (1, Some pool4096, mem4096) \<and>
   pool_alloc (Some pool4096) mem4096 16 0 (os_at 0x20000) =
     Some (Inr (0, Some pool4096, mem_grown 4096)) \<and>
   read64 mem4096 0x10018 = 0 \<and> read64 (mem_grown 4096) 0x10018 = 0x20000"
proof -
  have a: "alloc_from_block mem4096 0x10000 16 0 = (0, mem4096)"
    by (simp add: alloc_from_block_def mem4096_fields Let_def)
  have b: "bump_loop mem4096 16 0 0x10000 = Some (0, mem4096)"
    by (simp add: bump_loop.simps a mem4096_fields)
  have c: "alloc_from_block (mem_grown 4096) 0x20000 16 0 = (0, mem_grown 4096)"
    by (simp add: alloc_from_block_def mem_grown_fields Let_def)
  have "grow pool4096 mem4096 16 0 (os_at 0x20000) = Some (0, pool4096, mem_grown 4096)"
    using c by (intro grow_4096) simp
  then have "pool_alloc (Some pool4096) mem4096 16 0 (os_at 0x20000) =
     Some (Inr (0, Some pool4096, mem_grown 4096))"
    by (simp add: pool_alloc_def no_free_block b pool4096_fields)
  then show ?thesis
    by (simp add: init_pool4096 mem4096_fields mem_grown_fields)
qed

text \<open>
  C3 fails on the code.  \<^verbatim>\<open>pool_alloc\<close> sizes the new region as \<open>size + 32\<close>, without the
  alignment padding that \<^verbatim>\<open>alloc_from_block\<close> adds, and chains it before trying the
  allocation in it.  Where the operating system grants the region and the request with
  its padding does not fit, the call fails and the region stays:
  \<^verbatim>\<open>pool_alloc(P, 5000, 128)\<close> returns 0 and leaves a second region of 5032 bytes chained
  behind the first.
\<close>

theorem pool_alloc_failure_keeps_region:
  "pool_alloc (Some pool4096) mem4096 5000 128 (os_at 0x20000) =
     Some (Inr (0, Some pool4096, mem_grown 5032)) \<and>
   read64 mem4096 0x10018 = 0 \<and> read64 (mem_grown 5032) 0x10018 = 0x20000"
proof -
  have a: "alloc_from_block mem4096 0x10000 5000 128 = (0, mem4096)"
    by (simp add: alloc_from_block_def mem4096_fields Let_def)
  have b: "bump_loop mem4096 5000 128 0x10000 = Some (0, mem4096)"
    by (simp add: bump_loop.simps a mem4096_fields)
  have c: "alloc_from_block (mem_grown 5032) 0x20000 5000 128 = (0, mem_grown 5032)"
    by (simp add: alloc_from_block_def mem_grown_fields Let_def)
  have "grow pool4096 mem4096 5000 128 (os_at 0x20000) = Some (0, pool4096, mem_grown 5032)"
    using c by (intro grow_4096) simp
  then have "pool_alloc (Some pool4096) mem4096 5000 128 (os_at 0x20000) =
     Some (Inr (0, Some pool4096, mem_grown 5032))"
    by (simp add: pool_alloc_def no_free_block b pool4096_fields)
  then show ?thesis
    by (simp add: mem4096_fields mem_grown_fields)
qed

text \<open>
  C4 fails on the code, by the same defect: with an empty free list and no room in the only
  region, \<^verbatim>\<open>pool_alloc(P, 8000, 256)\<close> appends a region of \<open>max(4096, 8000 + 32)\<close> bytes that
  the operating system did grant, and still returns 0, because the region has no room for
  the padding in front of a 256-aligned payload.
\<close>

theorem pool_growth_region_too_small:
  "Pool.free_list pool4096 = 0 \<and>
   bump_loop mem4096 8000 256 (block_head pool4096) = Some (0, mem4096) \<and>
   os_at 0x20000 (8032 + 32) \<noteq> 0 \<and>
   pool_alloc (Some pool4096) mem4096 8000 256 (os_at 0x20000) =
     Some (Inr (0, Some pool4096, mem_grown 8032))"
proof -
  have a: "alloc_from_block mem4096 0x10000 8000 256 = (0, mem4096)"
    by (simp add: alloc_from_block_def mem4096_fields Let_def)
  have b: "bump_loop mem4096 8000 256 0x10000 = Some (0, mem4096)"
    by (simp add: bump_loop.simps a mem4096_fields)
  have c: "alloc_from_block (mem_grown 8032) 0x20000 8000 256 = (0, mem_grown 8032)"
    by (simp add: alloc_from_block_def mem_grown_fields Let_def)
  have "grow pool4096 mem4096 8000 256 (os_at 0x20000) = Some (0, pool4096, mem_grown 8032)"
    using c by (intro grow_4096) simp
  then have "pool_alloc (Some pool4096) mem4096 8000 256 (os_at 0x20000) =
     Some (Inr (0, Some pool4096, mem_grown 8032))"
    by (simp add: pool_alloc_def no_free_block b pool4096_fields)
  then show ?thesis
    using b by (simp add: pool4096_fields os_at_def)
qed

text \<open>
  C10.  \<^verbatim>\<open>slab_free\<close> with a null object pointer and \<^verbatim>\<open>pool_free\<close> with the user pointer 0
  return at once: the handle and the memory (free list, region chain, bump offsets) are
  unchanged, whatever they are.
\<close>

theorem free_null_is_noop:
  "slab_free h m 0 rcx = (h, m) \<and> pool_free h' m 0 malloc_ok = Some (Inr (h', m))"
  by (simp add: slab_free_def pool_free_def split: option.splits)

section \<open>Pool: every pointer returned is aligned\<close>

lemma unat_two_power:
  assumes "k < 64"
  shows "unat (2 ^ k :: 64 word) = 2 ^ k"
proof -
  have "(2 :: 64 word) ^ k = of_nat (2 ^ k)"
    by simp
  moreover have "(2 :: nat) ^ k < 2 ^ 64"
    using assms by (intro power_strict_increasing) simp_all
  ultimately show ?thesis
    by (simp only: unat_of_nat) simp
qed

lemma round_down_dvd:
  fixes x :: "64 word"
  shows "2 ^ k dvd unat (x AND NOT (2 ^ k - 1))"
  using dvd_unat_push_bit [of k "drop_bit k x"]
  by (simp add: mask_eq_decr_exp [symmetric] and_not_mask_push_drop)

lemma alloc_from_block_aligned:
  "2 ^ k dvd unat (fst (alloc_from_block m b sz (2 ^ k)))"
  by (simp add: alloc_from_block_def Let_def round_down_dvd)

lemma word_mod_zero_dvd:
  fixes p al :: "64 word"
  assumes "p mod al = 0"
  shows "unat al dvd unat p"
proof -
  have "unat p mod unat al = 0"
    using assms by (simp add: unat_mod [symmetric])
  then show ?thesis
    by (simp add: dvd_eq_mod_eq_0)
qed

lemma remove_free_block_loop_aligned:
  assumes "remove_free_block_loop pool m sz al prev cur = Some (Inr (p, pool', m'))"
  shows "unat al dvd unat p"
  using assms
proof (induction pool m sz al prev cur "Inr (p, pool', m') :: fault + addr \<times> Pool \<times> mem"
    rule: remove_free_block_loop.raw_induct [rotated 1, consumes 1])
  case (1 loop pool m sz al prev cur)
  show ?case
  proof (cases "cur = 0 \<or> al = 0")
    case True
    with "1.hyps"(2) show ?thesis
      by (auto split: if_splits)
  next
    case False
    show ?thesis
    proof (cases "(cur + HEADER_SIZE) mod al = 0 \<and> sz \<le> read64 m cur")
      case True
      with False "1.hyps"(2) have "p = cur + HEADER_SIZE"
        by (auto simp: Let_def split: if_splits)
      with True show ?thesis
        by (simp add: word_mod_zero_dvd)
    next
      case nomatch: False
      with False "1.hyps"(2)
      have "loop pool m sz al cur (read64 m (cur + 16)) = Some (Inr (p, pool', m'))"
        by (auto split: if_splits)
      then show ?thesis
        by (rule "1.hyps"(1))
    qed
  qed
qed

lemma bump_loop_aligned:
  assumes "bump_loop m sz (2 ^ k) bp = Some (p, m')"
  shows "2 ^ k dvd unat p"
  using assms
proof (induction m sz "2 ^ k :: 64 word" bp "(p, m')"
    rule: bump_loop.raw_induct [rotated 1, consumes 1])
  case (1 loop m sz bp)
  show ?case
  proof (cases "bp = 0")
    case True
    with "1.hyps"(2) show ?thesis by simp
  next
    case False
    show ?thesis
    proof (cases "fst (alloc_from_block m bp sz (2 ^ k)) = 0")
      case True
      with False "1.hyps"(2)
      have "loop (snd (alloc_from_block m bp sz (2 ^ k))) sz (2 ^ k)
          (read64 (snd (alloc_from_block m bp sz (2 ^ k))) (bp + 24)) = Some (p, m')"
        by (simp add: Let_def)
      then show ?thesis
        by (rule "1.hyps"(1))
    next
      case nz: False
      with False "1.hyps"(2) have "p = fst (alloc_from_block m bp sz (2 ^ k))"
        by (auto simp: Let_def)
      then show ?thesis
        by (simp add: alloc_from_block_aligned)
    qed
  qed
qed

lemma grow_aligned:
  assumes "grow pool m sz (2 ^ k) os = Some (p, pool', m')"
  shows "2 ^ k dvd unat p"
  using assms alloc_from_block_aligned [of k]
  by (auto simp: grow_def Let_def split: if_splits option.splits)

lemma pool_alloc_aligned:
  assumes "pool_alloc h m sz (2 ^ k) os = Some (Inr (p, h', m'))" and "k < 64"
  shows "2 ^ k dvd unat p"
proof (cases h)
  case None
  with assms show ?thesis
    by (simp add: pool_alloc_def)
next
  case (Some pool)
  show ?thesis
  proof (cases "sz = 0 \<or> (2 ^ k AND (2 ^ k - 1)) \<noteq> (0 :: 64 word)")
    case True
    with Some assms show ?thesis
      by (auto simp: pool_alloc_def)
  next
    case guard: False
    from guard Some assms(1) obtain r pool1 m1 where
      rfb: "remove_free_block pool m sz (2 ^ k) = Some (Inr (r, pool1, m1))"
      by (auto simp: pool_alloc_def split: option.splits sum.splits)
    have r: "2 ^ k dvd unat r"
      using remove_free_block_loop_aligned [OF rfb [unfolded remove_free_block_def]] assms(2)
      by (simp add: unat_two_power)
    show ?thesis
    proof (cases "r = 0")
      case False
      with guard Some assms(1) rfb have "p = r"
        by (auto simp: pool_alloc_def)
      with r show ?thesis by simp
    next
      case True
      with guard Some assms(1) rfb obtain r2 m2 where
        bl: "bump_loop m1 sz (2 ^ k) (block_head pool1) = Some (r2, m2)"
        by (auto simp: pool_alloc_def split: option.splits)
      show ?thesis
      proof (cases "r2 = 0")
        case False
        with True guard Some assms(1) rfb bl have "p = r2"
          by (auto simp: pool_alloc_def)
        with bump_loop_aligned [OF bl] show ?thesis by simp
      next
        case r2: True
        with True guard Some assms(1) rfb bl obtain pool3 where
          "grow pool1 m2 sz (2 ^ k) os = Some (p, pool3, m')"
          by (auto simp: pool_alloc_def split: option.splits)
        then show ?thesis
          by (rule grow_aligned)
      qed
    qed
  qed
qed

section \<open>Slab: every state that can be reached keeps the free list inside the cells\<close>

lemma in_cells_iff:
  "c \<in> cells s \<longleftrightarrow> (\<exists>i<unat (total_objects s). c = memory s + of_nat i * object_size s)"
  by (auto simp: cells_def cell_def)

lemma read64_upd_other:
  assumes "8 \<le> x - a"
  shows "read64 (m(x := v)) a = read64 m a"
proof -
  have ne: "a + i \<noteq> x" if "i < 8" for i
  proof
    assume "a + i = x"
    then have "x - a = i"
      by (metis add_diff_cancel_left')
    with assms have "8 \<le> i"
      by (simp only:)
    from leD [OF this] that show False
      by (rule notE)
  qed
  have n1: "a + 1 \<noteq> x" by (rule ne) simp
  have n2: "a + 2 \<noteq> x" by (rule ne) simp
  have n3: "a + 3 \<noteq> x" by (rule ne) simp
  have n4: "a + 4 \<noteq> x" by (rule ne) simp
  have n5: "a + 5 \<noteq> x" by (rule ne) simp
  have n6: "a + 6 \<noteq> x" by (rule ne) simp
  have n7: "a + 7 \<noteq> x" by (rule ne) simp
  have n0: "a \<noteq> x" using ne [of 0] by simp
  show ?thesis
    by (simp only: read64_def fun_upd_apply n0 n1 n2 n3 n4 n5 n6 n7 if_False)
qed

lemma slab_inv_start:
  assumes init: "slab_init (Some s0) n osz os m0 = (1, Some s, m)" and ok: "slab_region_ok s"
  shows "slab_inv s (s, m, {})"
proof -
  note st = slab_init_state [OF init ok]
  have fl: "Slab.free_list s \<in> cells s"
    using st(2,3,4) by (auto simp: in_cells_iff)
  have "read64 m c \<in> insert 0 (cells s)" if "c \<in> cells s" for c
  proof -
    from that obtain i where i: "i < unat n" "c = memory s + of_nat i * object_size s"
      by (auto simp: in_cells_iff st(3))
    show ?thesis
    proof (cases "Suc i < unat n")
      case True
      then have "memory s + of_nat (Suc i) * object_size s \<in> cells s"
        unfolding in_cells_iff st(3) by blast
      with st(5) [OF i(1)] True show ?thesis
        by (simp add: i(2))
    next
      case False
      with st(5) [OF i(1)] show ?thesis
        by (simp add: i(2))
    qed
  qed
  with fl show ?thesis
    by (simp add: slab_inv_def)
qed

lemma slab_inv_alloc:
  assumes inv: "slab_inv s0 (s, m, R)" and al: "slab_alloc (Some s) m = (p, Some s')"
  shows "slab_inv s0 (s', m, insert p R)" "p = 0 \<or> p - 32 \<in> cells s0"
proof -
  have both: "slab_inv s0 (s', m, insert p R) \<and> (p = 0 \<or> p - 32 \<in> cells s0)"
  proof (cases "Slab.free_list s = 0")
    case True
    with al have "p = 0" "s' = s"
      by (simp_all add: slab_alloc_empty)
    with inv show ?thesis
      by (simp add: slab_inv_def)
  next
    case False
    with al have p: "p = Slab.free_list s + 32"
      and s': "s' = s\<lparr>Slab.free_list := read64 m (Slab.free_list s)\<rparr>"
      by (simp_all add: slab_alloc_pop)
    from inv False have c: "Slab.free_list s \<in> cells s0"
      by (simp add: slab_inv_def)
    with inv have "read64 m (Slab.free_list s) \<in> insert 0 (cells s0)"
      by (simp add: slab_inv_def)
    with inv c show ?thesis
      by (simp add: slab_inv_def p s')
  qed
  from both show "slab_inv s0 (s', m, insert p R)" "p = 0 \<or> p - 32 \<in> cells s0"
    by simp_all
qed

lemma slab_inv_free:
  assumes ok: "slab_region_ok s0"
    and inv: "slab_inv s0 (s, m, R)" and p: "p \<in> R"
    and fr: "slab_free (Some s) m p (p - 32) = (Some s', m')"
  shows "slab_inv s0 (s', m', R)"
proof (cases "p = 0")
  case True
  with fr inv show ?thesis
    by (simp add: slab_free_def)
next
  case False
  note cok = ok [unfolded slab_region_ok_def]
  from inv p False have "p - 32 \<in> cells s0"
    by (auto simp: slab_inv_def)
  then obtain i where i: "i < unat (total_objects s0)"
    "p - 32 = memory s0 + of_nat i * object_size s0"
    by (auto simp: in_cells_iff)
  from fr False have s': "s' = s\<lparr>Slab.free_list := p - 32\<rparr>"
    and m': "m' = write64 m (p - 32) (Slab.free_list s)"
    by (simp_all add: slab_free_def Let_def HEADER_SIZE_def)
  have "read64 m' c \<in> insert 0 (cells s0)" if "c \<in> cells s0" for c
  proof -
    from that obtain j where j: "j < unat (total_objects s0)"
      "c = memory s0 + of_nat j * object_size s0"
      by (auto simp: in_cells_iff)
    show ?thesis
    proof (cases "j = i")
      case True
      with inv show ?thesis
        by (simp add: m' i(2) j(2) read64_write64_same slab_inv_def)
    next
      case False
      then have "read64 m' c = read64 m c"
        unfolding m' i(2) j(2) using i(1) j(1)
        by (intro read64_write64_cell [OF cok]) simp_all
      with inv that show ?thesis
        by (simp add: slab_inv_def)
    qed
  qed
  moreover have "p - 32 \<in> cells s0"
    by fact
  ultimately show ?thesis
    using inv by (simp add: slab_inv_def s')
qed

lemma slab_inv_zero_fill:
  assumes ok: "slab_region_ok s0" and tot: "total_objects s0 \<noteq> 0"
    and inv: "slab_inv s0 (s, m, R)"
    and m': "m' = simd_memset m1 (memory s) 0 (object_size s * total_objects s)"
  shows "slab_inv s0 (s\<lparr>Slab.free_list := memory s\<rparr>, m', R)"
proof -
  note cok = ok [unfolded slab_region_ok_def]
  from inv have same: "memory s = memory s0" "object_size s = object_size s0"
    "total_objects s = total_objects s0"
    by (simp_all add: slab_inv_def)
  have pos: "0 < unat (total_objects s0)"
    using tot by (simp add: unat_gt_0)
  have n: "unat (total_objects s0) \<le> unat (total_objects s0)"
    by simp
  have sz: "unat (object_size s0 * total_objects s0)
      = unat (total_objects s0) * unat (object_size s0)"
    using unat_cell_offset [OF cok n] by (simp add: mult.commute)
  have base: "memory s0 \<in> cells s0"
    unfolding in_cells_iff using pos by (intro exI [of _ 0]) simp
  have "read64 m' c = 0" if "c \<in> cells s0" for c
  proof -
    from that obtain j where j: "j < unat (total_objects s0)"
      "c = memory s0 + of_nat j * object_size s0"
      by (auto simp: in_cells_iff)
    have jn: "j \<le> unat (total_objects s0)" and sj: "Suc j \<le> unat (total_objects s0)"
      using j(1) by simp_all
    have "unat (c - memory s0) = j * unat (object_size s0)"
      using unat_cell_offset [OF cok jn] by (simp add: j(2))
    moreover have "j * unat (object_size s0) + unat (object_size s0)
        \<le> unat (total_objects s0) * unat (object_size s0)"
      using mult_le_mono1 [OF sj, of "unat (object_size s0)"] by simp
    moreover have "8 \<le> unat (object_size s0)"
      using cok by (simp add: cells_ok_def)
    ultimately have "unat (c - memory s0) + 8 \<le> unat (object_size s0 * total_objects s0)"
      unfolding sz by linarith
    then show ?thesis
      unfolding m' same simd_memset_eq by (simp add: read64_zero_fill)
  qed
  with base inv show ?thesis
    by (simp add: slab_inv_def same)
qed

lemma slab_inv_user_write:
  assumes ok: "slab_region_ok s0"
    and inv: "slab_inv s0 (s, m, R)" and p: "p \<in> R" "p \<noteq> 0"
    and off: "unat off + 32 < unat (object_size s)"
  shows "slab_inv s0 (s, m(p + off := v), R)"
proof -
  note cok = ok [unfolded slab_region_ok_def]
  from inv have cs: "object_size s = object_size s0"
    by (simp add: slab_inv_def)
  have off': "unat off + 32 < unat (object_size s0)"
    using off by (simp only: cs)
  from inv p have "p - 32 \<in> cells s0"
    by (auto simp: slab_inv_def)
  then obtain i where i: "i < unat (total_objects s0)"
    "p - 32 = memory s0 + of_nat i * object_size s0"
    by (auto simp: in_cells_iff)
  define x where "x = p + off"
  have x: "x = (memory s0 + of_nat i * object_size s0) + (32 + off)"
    unfolding x_def i(2) [symmetric] by simp
  have il: "i \<le> unat (total_objects s0)" and si: "Suc i \<le> unat (total_objects s0)"
    using i(1) by simp_all
  have ui: "unat (memory s0 + of_nat i * object_size s0)
      = unat (memory s0) + i * unat (object_size s0)"
    by (rule unat_cell [OF cok il])
  have end_i: "unat (memory s0) + i * unat (object_size s0) + unat (object_size s0) + 32 \<le> 2 ^ 64"
    using cells_ok_bounds(2) [OF cok si] by simp
  have o: "unat (32 + off) = 32 + unat off"
    using off' unat_lt_2p64 [of "object_size s0"] by (simp add: unat_add_lem [THEN iffD1])
  have ux: "unat x = unat (memory s0) + i * unat (object_size s0) + 32 + unat off"
    unfolding x using end_i off' ui o by (simp add: unat_add_lem [THEN iffD1])
  have "read64 (m(x := v)) c = read64 m c" if "c \<in> cells s0" for c
  proof -
    from that obtain j where j: "j < unat (total_objects s0)"
      "c = memory s0 + of_nat j * object_size s0"
      by (auto simp: in_cells_iff)
    have jl: "j \<le> unat (total_objects s0)"
      using j(1) by simp
    have uc: "unat c = unat (memory s0) + j * unat (object_size s0)"
      unfolding j(2) by (rule unat_cell [OF cok jl])
    have cend: "unat c + 32 \<le> 2 ^ 64"
      unfolding uc using cells_ok_bounds(2) [OF cok jl] by simp
    have "8 \<le> unat (x - c)"
    proof (cases "j \<le> i")
      case True
      then have "j * unat (object_size s0) \<le> i * unat (object_size s0)"
        by (rule mult_le_mono1)
      then have le: "unat c + 32 \<le> unat x"
        unfolding uc ux by linarith
      then have "c \<le> x"
        by (simp add: word_le_nat_alt)
      then have "unat (x - c) = unat x - unat c"
        by (rule unat_sub)
      with le show ?thesis
        by linarith
    next
      case False
      then have "Suc i \<le> j"
        by simp
      then have "i * unat (object_size s0) + unat (object_size s0) \<le> j * unat (object_size s0)"
        using mult_le_mono1 [of "Suc i" j "unat (object_size s0)"] by simp
      then have lt: "unat x < unat c"
        unfolding uc ux using off' by linarith
      then have "unat (x - c) = unat x + 2 ^ 64 - unat c"
        by (simp add: unat_sub_if_size word_size)
      with cend show ?thesis
        by linarith
    qed
    then have "8 \<le> x - c"
      by (simp add: word_le_nat_alt)
    then show ?thesis
      by (rule read64_upd_other)
  qed
  with inv show ?thesis
    by (simp add: slab_inv_def x_def)
qed

lemma slab_states_inv:
  assumes init: "slab_init (Some s0) n osz os m0 = (1, Some s, m)" and ok: "slab_region_ok s"
    and reach: "(s', m', R) \<in> slab_states s m"
  shows "slab_inv s (s', m', R)"
  using reach
proof (induction rule: slab_states.induct)
  case start
  show ?case
    by (rule slab_inv_start [OF init ok])
next
  case (alloc s1 m1 R p s2)
  from alloc.IH alloc.hyps(2) show ?case
    by (rule slab_inv_alloc(1))
next
  case (free s1 m1 R p s2 m2)
  from free.IH free.hyps(2,3) show ?case
    by (rule slab_inv_free [OF ok])
next
  case (reset s1 m1 R s2 m2)
  have tot: "total_objects s \<noteq> 0"
    using slab_init_success(1) [OF init] slab_init_state(3) [OF init ok] by simp
  from reset.hyps(2) have "s2 = s1\<lparr>Slab.free_list := memory s1\<rparr>"
    and "m2 = simd_memset
      (write64 (link_cells (memory s1) (object_size s1) (unat (total_objects s1 - 1)) m1)
         (memory s1 + (total_objects s1 - 1) * object_size s1) 0)
      (memory s1) 0 (object_size s1 * total_objects s1)"
    by (simp_all add: slab_reset_def Let_def)
  with slab_inv_zero_fill [OF ok tot reset.IH] show ?case
    by simp
next
  case (reset_mapped s1 m1 R s2 m2)
  have tot: "total_objects s \<noteq> 0"
    using slab_init_success(1) [OF init] slab_init_state(3) [OF init ok] by simp
  from reset_mapped.hyps(2) have "s2 = s1\<lparr>Slab.free_list := memory s1\<rparr>"
    and "m2 = simd_memset
      (link_cells_mapped (memory s1) (object_size s1) (total_objects s1)
         (unat (total_objects s1)) m1)
      (memory s1) 0 (object_size s1 * total_objects s1)"
    by (simp_all add: slab_reset_mapped_def Let_def)
  with slab_inv_zero_fill [OF ok tot reset_mapped.IH] show ?case
    by simp
next
  case (user_write s1 m1 R p off v)
  from user_write.IH user_write.hyps(2,3,4) show ?case
    by (rule slab_inv_user_write [OF ok])
qed

lemma cell_dvd_16:
  assumes cok: "cells_ok base cs n" and i: "i < n"
    and b: "16 dvd unat base" and c: "16 dvd unat cs"
  shows "16 dvd unat (base + of_nat i * cs + 32)"
proof -
  have il: "i \<le> n" and si: "Suc i \<le> n"
    using i by simp_all
  have "unat base + i * unat cs + unat cs + 32 \<le> 2 ^ 64"
    using cells_ok_bounds(2) [OF cok si] by simp
  then have "unat (base + of_nat i * cs) + unat (32 :: 64 word) < 2 ^ 64"
    using unat_cell [OF cok il] cok by (simp add: cells_ok_def)
  then have "unat (base + of_nat i * cs + 32) = unat base + i * unat cs + 32"
    using unat_cell [OF cok il] by (simp add: unat_add_lem [THEN iffD1])
  with b c show ?thesis
    by simp
qed

lemma slab_alloc_aligned:
  assumes init: "slab_init (Some s0) n osz os m0 = (1, Some s, m)" and ok: "slab_region_ok s"
    and base: "16 dvd unat (memory s)"
    and reach: "(s', m', R) \<in> slab_states s m"
    and al: "slab_alloc (Some s') m' = (q, hq)"
  shows "16 dvd unat q"
proof (cases "Slab.free_list s' = 0")
  case True
  with al show ?thesis
    by (simp add: slab_alloc_empty)
next
  case False
  note inv = slab_states_inv [OF init ok reach]
  from al False have q: "q = Slab.free_list s' + 32"
    by (simp add: slab_alloc_pop)
  from inv False have "Slab.free_list s' \<in> cells s"
    by (simp add: slab_inv_def)
  then obtain i where i: "i < unat (total_objects s)"
    "Slab.free_list s' = memory s + of_nat i * object_size s"
    by (auto simp: in_cells_iff)
  have "16 dvd unat (object_size s)"
    using slab_init_success(4) [OF init] align_size_dvd [of osz] by simp
  from cell_dvd_16 [OF ok [unfolded slab_region_ok_def] i(1) base this] show ?thesis
    by (simp add: q i(2))
qed

section \<open>Alignment of every pointer handed out\<close>


lemma alloc_a:
  "pool_alloc (Some pool4096) mem4096 64 16 os = Some (Inr (0x10040, Some pool4096, mem_a))"
proof -
  have a: "alloc_from_block mem4096 0x10000 64 16 = (0x10040, mem_a)"
    by (simp add: alloc_from_block_def mem4096_fields Let_def mem_a_def)
  have b: "bump_loop mem4096 64 16 0x10000 = Some (0x10040, mem_a)"
    by (subst bump_loop.simps) (simp add: a)
  show ?thesis
    by (simp add: pool_alloc_def no_free_block b pool4096_fields)
qed

lemma slab3_first_alloc:
  "slab_alloc (Some slab3) mem3 = (0x10020, Some (slab3\<lparr>Slab.free_list := 0x10040\<rparr>))"
proof -
  have "read64 mem3 0x10000 = 0x10040"
    using slab_init_state(5) [OF init_slab3 slab3_ok, of 0] by (simp add: slab3_def)
  then show ?thesis
    using slab_alloc_pop [of slab3 mem3] by (simp add: slab3_def)
qed

text \<open>
  A pointer that \<^verbatim>\<open>pool_alloc\<close> returns for an alignment \<open>2 ^ k\<close> is divisible by it,
  whichever of the three paths (first fit, bump, growth) produced it.  A pointer that
  \<^verbatim>\<open>slab_alloc\<close> returns is divisible by 16 in every state of \<open>slab_states\<close>, that is, as long
  as every \<^verbatim>\<open>slab_free\<close> found \<open>p - 32\<close> in \<^verbatim>\<open>%rcx\<close>, from a successful \<^verbatim>\<open>slab_init\<close> whose
  region starts at a multiple of 16 (the operating system hands out pages) and is owned by
  the slab.
\<close>

theorem alloc_alignment:
  "(pool_alloc h pm sz (2 ^ k) os = Some (Inr (p, h', pm')) \<and> k < 64 \<and> p \<noteq> 0 \<longrightarrow>
      unat p mod 2 ^ k = 0) \<and>
   (slab_init (Some s0) n osz sos m0 = (1, Some s, m) \<and> slab_region_ok s \<and>
    16 dvd unat (memory s) \<and> (s', m', R) \<in> slab_states s m \<and>
    slab_alloc (Some s') m' = (q, hq) \<and> q \<noteq> 0 \<longrightarrow> unat q mod 16 = 0)"
proof (intro conjI impI)
  assume "pool_alloc h pm sz (2 ^ k) os = Some (Inr (p, h', pm')) \<and> k < 64 \<and> p \<noteq> 0"
  then have "2 ^ k dvd unat p"
    using pool_alloc_aligned [of h pm sz k os p h' pm'] by simp
  then show "unat p mod 2 ^ k = 0"
    by (simp add: dvd_eq_mod_eq_0)
next
  assume "slab_init (Some s0) n osz sos m0 = (1, Some s, m) \<and> slab_region_ok s \<and>
    16 dvd unat (memory s) \<and> (s', m', R) \<in> slab_states s m \<and>
    slab_alloc (Some s') m' = (q, hq) \<and> q \<noteq> 0"
  then have "16 dvd unat q"
    using slab_alloc_aligned [of s0 n osz sos m0 s m s' m' R q hq] by simp
  then show "unat q mod 16 = 0"
    by (simp add: dvd_eq_mod_eq_0)
qed

theorem alloc_alignment_witness:
  "pool_alloc (Some pool4096) mem4096 64 (2 ^ 4) (os_at 0x20000) =
     Some (Inr (0x10040, Some pool4096, mem_a)) \<and>
   unat (0x10040 :: 64 word) mod 2 ^ 4 = 0 \<and>
   slab_init (Some slab0) 3 64 (os_at 0x10000) mem0 = (1, Some slab3, mem3) \<and>
   slab_region_ok slab3 \<and> 16 dvd unat (memory slab3) \<and>
   (slab3, mem3, {}) \<in> slab_states slab3 mem3 \<and>
   slab_alloc (Some slab3) mem3 = (0x10020, Some (slab3\<lparr>Slab.free_list := 0x10040\<rparr>)) \<and>
   unat (0x10020 :: 64 word) mod 16 = 0"
proof -
  have a: "pool_alloc (Some pool4096) mem4096 64 (2 ^ 4) (os_at 0x20000) =
     Some (Inr (0x10040, Some pool4096, mem_a))"
    using alloc_a [of "os_at 0x20000"] by simp
  have b: "16 dvd unat (memory slab3)"
    by (simp add: slab3_def)
  have c: "(slab3, mem3, {}) \<in> slab_states slab3 mem3"
    by (rule slab_states.start)
  from alloc_alignment [of "Some pool4096" mem4096 64 4 "os_at 0x20000" "0x10040" "Some pool4096"
      mem_a slab0 3 64 "os_at 0x10000" mem0 slab3 mem3 slab3 mem3 "{}" "0x10020"
      "Some (slab3\<lparr>Slab.free_list := 0x10040\<rparr>)"]
  show ?thesis
    using a b c init_slab3 slab3_ok slab3_first_alloc by simp
qed

text \<open>
  C8 fails on the code, in its slab half.  After \<^verbatim>\<open>slab_init\<close> of three 64-byte cells at
  \<open>0x10000\<close> the first \<^verbatim>\<open>slab_alloc\<close> returns \<open>0x10020\<close>.  \<^verbatim>\<open>slab_free\<close> of that pointer, with
  the stack address \<open>0x7FFF1E86B438\<close> in \<^verbatim>\<open>%rcx\<close> at the assembly statement, pushes that
  address; the next \<^verbatim>\<open>slab_alloc\<close> succeeds and returns \<open>0x7FFF1E86B458\<close>, which is 8 modulo
  16.
\<close>

theorem slab_alloc_misaligned:
  "slab_init (Some slab0) 3 64 (os_at 0x10000) mem0 = (1, Some slab3, mem3) \<and>
   16 dvd unat (memory slab3) \<and>
   slab_alloc (Some slab3) mem3 = (0x10020, Some (slab3\<lparr>Slab.free_list := 0x10040\<rparr>)) \<and>
   (case slab_free (Some (slab3\<lparr>Slab.free_list := 0x10040\<rparr>)) mem3 0x10020 0x7FFF1E86B438 of
      (h1, m1) \<Rightarrow> fst (slab_alloc h1 m1) = 0x7FFF1E86B458) \<and>
   unat (0x7FFF1E86B458 :: 64 word) mod 16 = 8"
proof -
  have "16 dvd unat (memory slab3)"
    by (simp add: slab3_def)
  moreover have "case slab_free (Some (slab3\<lparr>Slab.free_list := 0x10040\<rparr>)) mem3 0x10020
      0x7FFF1E86B438 of (h1, m1) \<Rightarrow> fst (slab_alloc h1 m1) = 0x7FFF1E86B458"
    by (simp add: slab_free_def slab_alloc_def Let_def HEADER_SIZE_def)
  moreover have "unat (0x7FFF1E86B458 :: 64 word) mod 16 = 8"
    by simp
  ultimately show ?thesis
    by (simp only: init_slab3 slab3_first_alloc simp_thms)
qed

section \<open>Pool: rounding an address up\<close>

lemma round_down_ge:
  fixes y t :: "64 word"
  shows "unat y \<le> unat (y AND NOT t) + unat t"
proof -
  have "(y AND NOT t) AND (y AND t) = 0"
    by (rule bit_word_eqI) (auto simp: bit_simps)
  then have "(y AND NOT t) + (y AND t) = (y AND NOT t) OR (y AND t)"
    by (rule disjunctive_add_eq_or)
  also have "\<dots> = y"
    by (rule bit_word_eqI) (auto simp: bit_simps)
  finally have "unat y = unat ((y AND NOT t) + (y AND t))"
    by simp
  also have "\<dots> \<le> unat (y AND NOT t) + unat (y AND t)"
    by (simp add: unat_word_ariths)
  also have "unat (y AND t) \<le> unat t"
    by (simp add: word_and_le1 word_le_nat_alt [symmetric])
  finally show ?thesis
    by simp
qed

lemma align_up_bounds:
  fixes x al :: "64 word"
  assumes "al \<noteq> 0" "unat x + unat al \<le> 2 ^ 64"
  shows "unat x \<le> unat ((x + (al - 1)) AND NOT (al - 1))"
    and "unat ((x + (al - 1)) AND NOT (al - 1)) < unat x + unat al"
proof -
  have pos: "0 < unat al"
    using assms(1) by (simp add: unat_gt_0)
  have a1: "unat (al - 1) = unat al - 1"
    using assms(1) by (simp add: unat_minus_one)
  have "unat x + unat (al - 1) < 2 ^ 64"
    using assms(2) pos a1 by linarith
  then have s: "unat (x + (al - 1)) = unat x + unat al - 1"
    using a1 pos by (simp add: unat_add_lem [THEN iffD1])
  from round_down_ge [of "x + (al - 1)" "al - 1"] s a1 pos
  show "unat x \<le> unat ((x + (al - 1)) AND NOT (al - 1))"
    by linarith
  have "unat ((x + (al - 1)) AND NOT (al - 1)) \<le> unat (x + (al - 1))"
    by (simp add: word_and_le2 word_le_nat_alt [symmetric])
  with s pos show "unat ((x + (al - 1)) AND NOT (al - 1)) < unat x + unat al"
    by linarith
qed

section \<open>Pool: lists in memory\<close>

lemma linked_null [simp]: "linked m off 0 xs \<longleftrightarrow> xs = []"
  by (cases xs) auto

lemma linked_frame:
  assumes "linked m off p xs"
    and "\<And>x. x \<in> set xs \<Longrightarrow> read64 m' (x + off) = read64 m (x + off)"
  shows "linked m' off p xs"
  using assms by (induction xs arbitrary: p) auto

lemma linked_unique:
  assumes "linked m off p xs" "linked m off p ys"
  shows "xs = ys"
  using assms
proof (induction xs arbitrary: p ys)
  case Nil
  then show ?case by simp
next
  case (Cons x xs)
  then obtain y ys' where ys: "ys = y # ys'"
    by (cases ys) auto
  with Cons.prems have "y = x" "linked m off (read64 m (x + off)) ys'"
    by auto
  with Cons.IH [of "read64 m (x + off)" ys'] Cons.prems ys show ?case
    by simp
qed

lemma linked_suffix:
  assumes "linked m off p (as @ x # bs)"
  shows "linked m off x (x # bs)"
  using assms by (induction as arbitrary: p) auto

lemma linked_distinct:
  assumes "linked m off p xs"
  shows "distinct xs"
  using assms
proof (induction xs arbitrary: p)
  case Nil
  then show ?case by simp
next
  case (Cons x xs)
  have "x \<notin> set xs"
  proof
    assume "x \<in> set xs"
    then obtain as bs where xs: "xs = as @ x # bs"
      by (auto simp: in_set_conv_decomp)
    have "linked m off x (x # bs)"
      using Cons.prems linked_suffix [of m off p "x # as" x bs] by (simp add: xs)
    moreover have "linked m off x (x # xs)"
      using Cons.prems by simp
    ultimately have "x # bs = x # xs"
      by (rule linked_unique)
    then have "length bs = length (as @ x # bs)"
      by (simp add: xs)
    then show False
      by simp
  qed
  moreover have "distinct xs"
    using Cons.prems Cons.IH [of "read64 m (x + off)"] by simp
  ultimately show ?case
    by simp
qed

lemma linked_snoc:
  assumes "linked m off p xs" "xs \<noteq> []" "nb \<noteq> 0"
    and "read64 m' (last xs + off) = nb" "read64 m' (nb + off) = 0"
    and "\<And>x. x \<in> set (butlast xs) \<Longrightarrow> read64 m' (x + off) = read64 m (x + off)"
  shows "linked m' off p (xs @ [nb])"
  using assms(1,2,4,6)
proof (induction xs arbitrary: p)
  case Nil
  then show ?case by simp
next
  case (Cons x xs)
  show ?case
  proof (cases "xs = []")
    case True
    with Cons.prems assms(3,5) show ?thesis
      by simp
  next
    case False
    with Cons.prems(4) [of x] have same: "read64 m' (x + off) = read64 m (x + off)"
      by simp
    have "linked m' off (read64 m (x + off)) (xs @ [nb])"
    proof (rule Cons.IH [OF _ False])
      show "linked m off (read64 m (x + off)) xs"
        using Cons.prems(1) by simp
      show "read64 m' (last xs + off) = nb"
        using Cons.prems(3) False by simp
      show "read64 m' (y + off) = read64 m (y + off)" if "y \<in> set (butlast xs)" for y
        using that Cons.prems(4) [of y] False by simp
    qed
    with Cons.prems(1) same show ?thesis
      by simp
  qed
qed

lemma last_block_linked:
  assumes "linked m 24 p bs" "bs \<noteq> []"
  shows "last_block m p = Some (last bs)"
  using assms
proof (induction bs arbitrary: p)
  case Nil
  then show ?case by simp
next
  case (Cons x xs)
  then have p: "p = x" and l: "linked m 24 (read64 m (x + 24)) xs"
    by simp_all
  show ?case
  proof (cases "xs = []")
    case True
    with l have "read64 m (x + 24) = 0"
      by simp
    then show ?thesis
      unfolding p by (subst last_block.simps) (simp add: True)
  next
    case False
    with l have nz: "read64 m (x + 24) \<noteq> 0"
      by (cases xs) auto
    have "last_block m x = last_block m (read64 m (x + 24))"
      using nz by (subst last_block.simps) simp
    with Cons.IH [OF l False] False show ?thesis
      by (simp add: p)
  qed
qed


section \<open>Pool: the first-fit walk and the bump walk\<close>

lemma remove_free_block_loop_linked:
  assumes "linked m 16 cur fl" "al \<noteq> 0"
  shows "remove_free_block_loop pool m sz al prev cur = Some (Inr (0, pool, m)) \<or>
    (\<exists>h\<in>set fl. (h + 32) mod al = 0 \<and> sz \<le> read64 m h \<and>
       (\<exists>pool' m'. remove_free_block_loop pool m sz al prev cur = Some (Inr (h + 32, pool', m'))))"
  using assms(1)
proof (induction fl arbitrary: prev cur)
  case Nil
  then have "cur = 0" by simp
  then show ?case
    by (subst remove_free_block_loop.simps) simp
next
  case (Cons x xs)
  then have cur: "cur = x" "x \<noteq> 0" and l: "linked m 16 (read64 m (x + 16)) xs"
    by simp_all
  show ?case
  proof (cases "(x + 32) mod al = 0 \<and> sz \<le> read64 m x")
    case True
    have "\<exists>pool' m'. remove_free_block_loop pool m sz al prev x = Some (Inr (x + 32, pool', m'))"
      using True cur(2) assms(2)
      by (subst remove_free_block_loop.simps) (simp add: HEADER_SIZE_def Let_def)
    with True show ?thesis
      unfolding cur(1) by auto
  next
    case False
    have "remove_free_block_loop pool m sz al prev x =
        remove_free_block_loop pool m sz al x (read64 m (x + 16))"
      using False cur(2) assms(2)
      by (subst remove_free_block_loop.simps) (auto simp: HEADER_SIZE_def)
    with Cons.IH [OF l, of x] show ?thesis
      unfolding cur(1) by auto
  qed
qed

lemma alloc_from_block_result:
  "alloc_from_block m b sz al = (0, m) \<or> fst (alloc_from_block m b sz al) =
      (read64 m (b + 16) + read64 m b + 32 + (al - 1)) AND NOT (al - 1)"
  unfolding alloc_from_block_def Let_def
  by (simp only: fst_conv simp_thms split: if_split)

lemma alloc_from_block_zero:
  assumes "region_fits m b al" "al \<noteq> 0" "fst (alloc_from_block m b sz al) = 0"
  shows "alloc_from_block m b sz al = (0, m)"
proof (rule ccontr)
  assume "alloc_from_block m b sz al \<noteq> (0, m)"
  with alloc_from_block_result [of m b sz al]
  have r9: "fst (alloc_from_block m b sz al) =
      (read64 m (b + 16) + read64 m b + 32 + (al - 1)) AND NOT (al - 1)"
    by blast
  have fit: "unat (read64 m b) + unat (read64 m (b + 16)) + 32 + unat al \<le> 2 ^ 64"
    using assms(1) by (simp add: region_fits_def)
  have pos: "0 < unat al"
    using assms(2) by (simp add: unat_gt_0)
  have "unat (read64 m (b + 16) + read64 m b) = unat (read64 m (b + 16)) + unat (read64 m b)"
    using fit pos by (intro unat_add_lem [THEN iffD1]) simp
  then have x: "unat (read64 m (b + 16) + read64 m b + 32)
      = unat (read64 m (b + 16)) + unat (read64 m b) + 32"
    using fit pos by (simp add: unat_add_lem [THEN iffD1])
  have "unat (read64 m (b + 16) + read64 m b + 32) + unat al \<le> 2 ^ 64"
    unfolding x using fit by linarith
  from align_up_bounds(1) [OF assms(2) this] x
  have "32 \<le> unat (fst (alloc_from_block m b sz al))"
    unfolding r9 by linarith
  with assms(3) show False
    by simp
qed

lemma bump_loop_zero:
  assumes "linked m 24 bp bs" "\<And>b. b \<in> set bs \<Longrightarrow> region_fits m b al" "al \<noteq> 0"
    and "bump_loop m sz al bp = Some (0, m')"
  shows "m' = m"
  using assms(1,2,4)
proof (induction bs arbitrary: bp)
  case Nil
  then have "bp = 0" by simp
  with Nil.prems(3) show ?case
    by (simp add: bump_loop.simps)
next
  case (Cons x xs)
  then have bp: "bp = x" "x \<noteq> 0" and l: "linked m 24 (read64 m (x + 24)) xs"
    by simp_all
  have z: "fst (alloc_from_block m x sz al) = 0"
  proof (rule ccontr)
    assume nz: "fst (alloc_from_block m x sz al) \<noteq> 0"
    then have "bump_loop m sz al x = Some (alloc_from_block m x sz al)"
      using bp(2) by (subst bump_loop.simps) (simp add: Let_def)
    with Cons.prems(3) nz show False
      by (simp add: bp(1))
  qed
  have r: "alloc_from_block m x sz al = (0, m)"
    using Cons.prems(2) [of x] assms(3) z by (intro alloc_from_block_zero) simp_all
  have "bump_loop m sz al x = bump_loop m sz al (read64 m (x + 24))"
    using bp(2) by (subst bump_loop.simps) (simp add: r)
  with Cons.prems(3) have "bump_loop m sz al (read64 m (x + 24)) = Some (0, m')"
    by (simp add: bp(1))
  with Cons.IH [OF l] Cons.prems(2) show ?case
    by simp
qed

lemma bump_loop_fail:
  assumes "linked m 24 bp bs" "\<And>b. b \<in> set bs \<Longrightarrow> alloc_from_block m b sz al = (0, m)"
  shows "bump_loop m sz al bp = Some (0, m)"
  using assms
proof (induction bs arbitrary: bp)
  case Nil
  then have "bp = 0" by simp
  then show ?case
    by (simp add: bump_loop.simps)
next
  case (Cons x xs)
  then have bp: "bp = x" "x \<noteq> 0" and l: "linked m 24 (read64 m (x + 24)) xs"
    by simp_all
  have r: "alloc_from_block m x sz al = (0, m)"
    using Cons.prems(2) [of x] by simp
  have "bump_loop m sz al x = bump_loop m sz al (read64 m (x + 24))"
    using bp(2) by (subst bump_loop.simps) (simp add: r)
  with Cons.IH [OF l] Cons.prems(2) show ?case
    by (simp add: bp(1))
qed

section \<open>Pool: a new region behind the chain\<close>

lemma read64_write64_far:
  assumes "unat a + 8 \<le> unat b \<or> unat b + 8 \<le> unat a"
    and "unat a + 8 \<le> 2 ^ 64" "unat b + 8 \<le> 2 ^ 64"
  shows "read64 (write64 m a v) b = read64 m b"
  using assms(1)
proof
  assume l: "unat a + 8 \<le> unat b"
  show ?thesis
    by (rule read64_write64_other [OF apartI(1) [OF l assms(3)] apartI(2) [OF l assms(3)]])
next
  assume l: "unat b + 8 \<le> unat a"
  show ?thesis
    by (rule read64_write64_other [OF apartI(2) [OF l assms(2)] apartI(1) [OF l assms(2)]])
qed

lemma header_offsets:
  fixes nb :: addr
  assumes "unat nb + 32 \<le> 2 ^ 64"
  shows "unat (nb + 8) = unat nb + 8" "unat (nb + 16) = unat nb + 16"
    "unat (nb + 24) = unat nb + 24"
  using assms by (simp_all add: unat_add_lem [THEN iffD1])

lemma header_writes_frame:
  assumes "unat nb + 32 \<le> 2 ^ 64" "unat a + 8 \<le> 2 ^ 64"
    and "unat a + 8 \<le> unat nb \<or> unat nb + 32 \<le> unat a"
  shows "read64 (writes [(nb, v0), (nb + 8, v1), (nb + 16, v2), (nb + 24, v3)] m) a = read64 m a"
proof -
  note o = header_offsets [OF assms(1)]
  have d0: "unat nb + 8 \<le> unat a \<or> unat a + 8 \<le> unat nb"
    using assms(3) by auto
  have d1: "unat (nb + 8) + 8 \<le> unat a \<or> unat a + 8 \<le> unat (nb + 8)"
    using assms(3) unfolding o by auto
  have d2: "unat (nb + 16) + 8 \<le> unat a \<or> unat a + 8 \<le> unat (nb + 16)"
    using assms(3) unfolding o by auto
  have d3: "unat (nb + 24) + 8 \<le> unat a \<or> unat a + 8 \<le> unat (nb + 24)"
    using assms(3) unfolding o by auto
  have b0: "unat nb + 8 \<le> 2 ^ 64" and b1: "unat (nb + 8) + 8 \<le> 2 ^ 64"
    and b2: "unat (nb + 16) + 8 \<le> 2 ^ 64" and b3: "unat (nb + 24) + 8 \<le> 2 ^ 64"
    using assms(1) unfolding o by simp_all
  show ?thesis
    by (simp only: writes.simps read64_write64_far [OF d3 b3 assms(2)]
        read64_write64_far [OF d2 b2 assms(2)] read64_write64_far [OF d1 b1 assms(2)]
        read64_write64_far [OF d0 b0 assms(2)])
qed

lemma header_writes_fields:
  assumes "unat nb + 32 \<le> 2 ^ 64"
  shows "read64 (writes [(nb, v0), (nb + 8, v1), (nb + 16, v2), (nb + 24, v3)] m) nb = v0"
    and "read64 (writes [(nb, v0), (nb + 8, v1), (nb + 16, v2), (nb + 24, v3)] m) (nb + 8) = v1"
    and "read64 (writes [(nb, v0), (nb + 8, v1), (nb + 16, v2), (nb + 24, v3)] m) (nb + 16) = v2"
    and "read64 (writes [(nb, v0), (nb + 8, v1), (nb + 16, v2), (nb + 24, v3)] m) (nb + 24) = v3"
proof -
  note o = header_offsets [OF assms(1)]
  have far: "read64 (write64 m' (nb + i) v) (nb + j) = read64 m' (nb + j)"
    if "unat (nb + i) = unat nb + unat i" "unat (nb + j) = unat nb + unat j"
      "unat i + 8 \<le> unat j \<or> unat j + 8 \<le> unat i" "unat i \<le> 24" "unat j \<le> 24"
    for m' i j v
  proof (rule read64_write64_far)
    show "unat (nb + i) + 8 \<le> unat (nb + j) \<or> unat (nb + j) + 8 \<le> unat (nb + i)"
      using that(3) unfolding that(1,2) by auto
    show "unat (nb + i) + 8 \<le> 2 ^ 64"
      using that(4) assms unfolding that(1) by simp
    show "unat (nb + j) + 8 \<le> 2 ^ 64"
      using that(5) assms unfolding that(2) by simp
  qed
  have z: "unat (nb + 0) = unat nb + unat (0 :: 64 word)"
    by simp
  have e8: "unat (nb + 8) = unat nb + unat (8 :: 64 word)"
    and e16: "unat (nb + 16) = unat nb + unat (16 :: 64 word)"
    and e24: "unat (nb + 24) = unat nb + unat (24 :: 64 word)"
    using o by simp_all
  have f08: "read64 (write64 m' (nb + 8) v) (nb + 0) = read64 m' (nb + 0)" for m' v
    by (rule far [OF e8 z]) simp_all
  have f016: "read64 (write64 m' (nb + 16) v) (nb + 0) = read64 m' (nb + 0)" for m' v
    by (rule far [OF e16 z]) simp_all
  have f024: "read64 (write64 m' (nb + 24) v) (nb + 0) = read64 m' (nb + 0)" for m' v
    by (rule far [OF e24 z]) simp_all
  have f816: "read64 (write64 m' (nb + 16) v) (nb + 8) = read64 m' (nb + 8)" for m' v
    by (rule far [OF e16 e8]) simp_all
  have f824: "read64 (write64 m' (nb + 24) v) (nb + 8) = read64 m' (nb + 8)" for m' v
    by (rule far [OF e24 e8]) simp_all
  have f1624: "read64 (write64 m' (nb + 24) v) (nb + 16) = read64 m' (nb + 16)" for m' v
    by (rule far [OF e24 e16]) simp_all
  have "read64 (writes [(nb, v0), (nb + 8, v1), (nb + 16, v2), (nb + 24, v3)] m) (nb + 0) = v0"
    by (simp only: writes.simps f08 f016 f024) (simp add: read64_write64_same)
  then show "read64 (writes [(nb, v0), (nb + 8, v1), (nb + 16, v2), (nb + 24, v3)] m) nb = v0"
    by simp
  show "read64 (writes [(nb, v0), (nb + 8, v1), (nb + 16, v2), (nb + 24, v3)] m) (nb + 8) = v1"
    by (simp only: writes.simps f816 f824 read64_write64_same)
  show "read64 (writes [(nb, v0), (nb + 8, v1), (nb + 16, v2), (nb + 24, v3)] m) (nb + 16) = v2"
    by (simp only: writes.simps f1624 read64_write64_same)
  show "read64 (writes [(nb, v0), (nb + 8, v1), (nb + 16, v2), (nb + 24, v3)] m) (nb + 24) = v3"
    by (simp only: writes.simps read64_write64_same)
qed

lemma new_base_bounds:
  fixes nb :: addr
  assumes "unat nb + 47 < 2 ^ 64"
  shows "unat nb + 32 \<le> unat ((nb + 32 + 15) AND NOT 15)"
    and "unat ((nb + 32 + 15) AND NOT 15) \<le> unat nb + 47"
proof -
  have u: "unat (nb + 32 + 15) = unat nb + 47"
    using assms by (simp add: unat_add_lem [THEN iffD1])
  from unat_and_not_mask_bounds [of "nb + 32 + 15" 4] u
  show "unat nb + 32 \<le> unat ((nb + 32 + 15) AND NOT 15)"
    and "unat ((nb + 32 + 15) AND NOT 15) \<le> unat nb + 47"
    unfolding fifteen_mask [symmetric] by simp_all
qed

lemma fresh_facts:
  assumes "new_block_fresh nb nbs al bs"
  shows "unat nb + 47 + unat nbs \<le> 2 ^ 64" "unat nb + 79 + unat al \<le> 2 ^ 64"
    and "unat nb + 32 \<le> 2 ^ 64" "unat nb + 47 < 2 ^ 64"
    and "\<And>b. b \<in> set bs \<Longrightarrow> unat b + 32 \<le> 2 ^ 64"
    and "\<And>b. b \<in> set bs \<Longrightarrow> unat b + 32 \<le> unat nb \<or> unat nb + 47 + unat nbs \<le> unat b"
  using assms by (auto simp: new_block_fresh_def)

lemma chain_fields:
  assumes "new_block_fresh nb nbs al bs"
  shows "read64 (chain_new_block m nb nbs bs) nb = (nb + 32 + 15) AND NOT 15"
    and "read64 (chain_new_block m nb nbs bs) (nb + 8) = nbs"
    and "read64 (chain_new_block m nb nbs bs) (nb + 16) = 0"
    and "read64 (chain_new_block m nb nbs bs) (nb + 24) = 0"
proof -
  note f = fresh_facts [OF assms]
  note o = header_offsets [OF f(3)]
  let ?m4 = "writes [(nb, (nb + 32 + 15) AND NOT 15), (nb + 8, nbs), (nb + 16, 0), (nb + 24, 0)] m"
  have far: "read64 (write64 ?m4 (last bs + 24) nb) a = read64 ?m4 a"
    if ne: "bs \<noteq> []" and a: "unat nb \<le> unat a" "unat a + 8 \<le> unat nb + 32" for a
  proof (rule read64_write64_far)
    have l: "last bs \<in> set bs"
      using ne by simp
    have ol: "unat (last bs + 24) = unat (last bs) + 24"
      using header_offsets(3) [OF f(5) [OF l]] .
    show "unat (last bs + 24) + 8 \<le> unat a \<or> unat a + 8 \<le> unat (last bs + 24)"
      using f(6) [OF l] a unfolding ol by auto
    show "unat (last bs + 24) + 8 \<le> 2 ^ 64"
      using f(5) [OF l] unfolding ol by simp
    show "unat a + 8 \<le> 2 ^ 64"
      using a(2) f(3) by simp
  qed
  have c: "chain_new_block m nb nbs bs = (if bs = [] then ?m4 else write64 ?m4 (last bs + 24) nb)"
    by (simp only: chain_new_block_def Let_def)
  have r: "read64 (chain_new_block m nb nbs bs) a = read64 ?m4 a"
    if "unat nb \<le> unat a" "unat a + 8 \<le> unat nb + 32" for a
  proof (cases "bs = []")
    case True
    show ?thesis
      unfolding c using True by simp
  next
    case False
    show ?thesis
      unfolding c using far [OF False that] False by simp
  qed
  show "read64 (chain_new_block m nb nbs bs) nb = (nb + 32 + 15) AND NOT 15"
    by (subst r) (simp_all only: header_writes_fields [OF f(3)])
  show "read64 (chain_new_block m nb nbs bs) (nb + 8) = nbs"
    by (subst r) (simp_all only: header_writes_fields [OF f(3)] o)
  show "read64 (chain_new_block m nb nbs bs) (nb + 16) = 0"
    by (subst r) (simp_all only: header_writes_fields [OF f(3)] o)
  show "read64 (chain_new_block m nb nbs bs) (nb + 24) = 0"
    by (subst r) (simp_all only: header_writes_fields [OF f(3)] o)
qed

lemma chain_header_frame:
  assumes "new_block_fresh nb nbs al bs" "b \<in> set bs"
  shows "read64 (writes [(nb, v0), (nb + 8, v1), (nb + 16, v2), (nb + 24, v3)] m) (b + 24)
      = read64 m (b + 24)"
proof (rule header_writes_frame)
  note f = fresh_facts [OF assms(1)]
  have ob: "unat (b + 24) = unat b + 24"
    using header_offsets(3) [OF f(5) [OF assms(2)]] .
  show "unat nb + 32 \<le> 2 ^ 64"
    by (rule f(3))
  show "unat (b + 24) + 8 \<le> 2 ^ 64"
    using f(5) [OF assms(2)] unfolding ob by simp
  show "unat (b + 24) + 8 \<le> unat nb \<or> unat nb + 32 \<le> unat (b + 24)"
    using f(6) [OF assms(2)] unfolding ob by auto
qed

lemma chain_linked:
  assumes "linked m 24 p bs" "new_block_fresh nb nbs al bs" "headers_apart bs" "nb \<noteq> 0"
  shows "linked (chain_new_block m nb nbs bs) 24 (if bs = [] then nb else p) (bs @ [nb])"
proof (cases "bs = []")
  case True
  with chain_fields(4) [OF assms(2), of m] assms(4) show ?thesis
    by simp
next
  case False
  note f = fresh_facts [OF assms(2)]
  let ?m4 = "writes [(nb, (nb + 32 + 15) AND NOT 15), (nb + 8, nbs), (nb + 16, 0), (nb + 24, 0)] m"
  have c: "chain_new_block m nb nbs bs = write64 ?m4 (last bs + 24) nb"
    using False by (simp only: chain_new_block_def Let_def if_False)
  have l: "last bs \<in> set bs"
    using False by simp
  have ol: "unat (last bs + 24) = unat (last bs) + 24"
    using header_offsets(3) [OF f(5) [OF l]] .
  have "distinct (butlast bs @ [last bs])"
    using linked_distinct [OF assms(1)] False by simp
  then have nl: "last bs \<notin> set (butlast bs)"
    by simp
  have "linked (chain_new_block m nb nbs bs) 24 p (bs @ [nb])"
  proof (rule linked_snoc [OF assms(1) False assms(4)])
    show "read64 (chain_new_block m nb nbs bs) (last bs + 24) = nb"
      unfolding c by (rule read64_write64_same)
    show "read64 (chain_new_block m nb nbs bs) (nb + 24) = 0"
      by (rule chain_fields(4) [OF assms(2)])
    fix x
    assume x: "x \<in> set (butlast bs)"
    then have xs: "x \<in> set bs" and xl: "x \<noteq> last bs"
      using nl by (auto dest: in_set_butlastD)
    have ox: "unat (x + 24) = unat x + 24"
      using header_offsets(3) [OF f(5) [OF xs]] .
    have ap: "unat x + 32 \<le> unat (last bs) \<or> unat (last bs) + 32 \<le> unat x"
      using assms(3) xs l xl by (auto simp: headers_apart_def)
    have "read64 (chain_new_block m nb nbs bs) (x + 24) = read64 ?m4 (x + 24)"
      unfolding c
    proof (rule read64_write64_far)
      show "unat (last bs + 24) + 8 \<le> unat (x + 24) \<or> unat (x + 24) + 8 \<le> unat (last bs + 24)"
        using ap unfolding ol ox by auto
      show "unat (last bs + 24) + 8 \<le> 2 ^ 64"
        using f(5) [OF l] unfolding ol by simp
      show "unat (x + 24) + 8 \<le> 2 ^ 64"
        using f(5) [OF xs] unfolding ox by simp
    qed
    also have "\<dots> = read64 m (x + 24)"
      by (rule chain_header_frame [OF assms(2) xs])
    finally show "read64 (chain_new_block m nb nbs bs) (x + 24) = read64 m (x + 24)" .
  qed
  with False show ?thesis
    by simp
qed

lemma grow_refused:
  assumes "os (new_block_size pool sz + 32) = 0"
  shows "grow pool m sz al os = Some (0, pool, m)"
  using assms by (simp add: grow_def new_block_size_def Let_def)

lemma linked_head_null:
  assumes "linked m off p bs"
  shows "p = 0 \<longleftrightarrow> bs = []"
  using assms by (cases bs) auto

lemma grow_granted:
  assumes "linked m 24 (block_head pool) bs"
    and "new_block_fresh nb (new_block_size pool sz) al bs"
    and "os (new_block_size pool sz + 32) = nb" "nb \<noteq> 0"
  shows "grow pool m sz al os =
     Some (fst (alloc_from_block (chain_new_block m nb (new_block_size pool sz) bs) nb sz al),
           (if bs = [] then pool\<lparr>block_head := nb\<rparr> else pool),
           snd (alloc_from_block (chain_new_block m nb (new_block_size pool sz) bs) nb sz al))"
proof -
  let ?nbs = "new_block_size pool sz"
  let ?m4 = "write64 (write64 (write64 (write64 m nb ((nb + 32 + 15) AND NOT 15)) (nb + 8) ?nbs)
      (nb + 16) 0) (nb + 24) 0"
  have w: "writes [(nb, (nb + 32 + 15) AND NOT 15), (nb + 8, ?nbs), (nb + 16, 0), (nb + 24, 0)] m
      = ?m4"
    by (simp only: writes.simps)
  have g: "grow pool m sz al os =
      (if block_head pool = 0 then
         (let r = alloc_from_block ?m4 nb sz al
          in Some (fst r, pool\<lparr>block_head := nb\<rparr>, snd r))
       else
         (case last_block ?m4 (block_head pool) of
            None \<Rightarrow> None
          | Some lastb \<Rightarrow>
              let r = alloc_from_block (write64 ?m4 (lastb + 24) nb) nb sz al
              in Some (fst r, pool, snd r)))"
    unfolding grow_def new_block_size_def [symmetric] Let_def assms(3)
    using assms(4) by (simp only: if_False)
  show ?thesis
  proof (cases "bs = []")
    case True
    then have "block_head pool = 0"
      using linked_head_null [OF assms(1)] by simp
    then show ?thesis
      unfolding g using True by (simp add: chain_new_block_def Let_def)
  next
    case False
    then have h: "block_head pool \<noteq> 0"
      using linked_head_null [OF assms(1)] by simp
    have "linked ?m4 24 (block_head pool) bs"
      unfolding w [symmetric]
      by (rule linked_frame [OF assms(1)]) (rule chain_header_frame [OF assms(2)])
    from last_block_linked [OF this False] h show ?thesis
      unfolding g using False by (simp add: chain_new_block_def Let_def)
  qed
qed

section \<open>Pool: allocating from the new region\<close>

lemma unat_plus:
  fixes a b :: "64 word"
  assumes "unat a + unat b < 2 ^ 64"
  shows "unat (a + b) = unat a + unat b"
  using assms by (simp add: unat_add_lem [THEN iffD1])

lemma alloc_from_block_fresh_eq:
  assumes "read64 m nb = B" "read64 m (nb + 16) = 0" "read64 m (nb + 8) = nbs"
  shows "alloc_from_block m nb sz al =
    (if nbs < 32 + (((B + 32 + (al - 1)) AND NOT (al - 1)) - (B + 32)) + sz then (0, m)
     else (((B + 32 + (al - 1)) AND NOT (al - 1)),
       write64 (write64 (write64 (write64 m (nb + 16)
           (32 + (((B + 32 + (al - 1)) AND NOT (al - 1)) - (B + 32)) + sz))
         (((B + 32 + (al - 1)) AND NOT (al - 1)) - 32) sz)
         (((B + 32 + (al - 1)) AND NOT (al - 1)) - 32 + 8)
           (((B + 32 + (al - 1)) AND NOT (al - 1)) - (B + 32)))
         (((B + 32 + (al - 1)) AND NOT (al - 1)) - 32 + 16) 0))"
  unfolding alloc_from_block_def Let_def assms add_0_left by (rule refl)

lemma alloc_new_region:
  assumes fields: "read64 m nb = B" "read64 m (nb + 16) = 0" "read64 m (nb + 8) = nbs"
    and bounds: "unat nb + 32 \<le> unat B" "unat B \<le> unat nb + 47"
      "unat nb + 79 + unat al \<le> 2 ^ 64" "unat sz + unat al + 32 \<le> 2 ^ 64"
    and al: "al \<noteq> 0"
  shows "alloc_from_block m nb sz al = (0, m) \<or>
    (\<exists>r9 r12 pad. alloc_from_block m nb sz al =
        (r9, write64 (write64 (write64 (write64 m (nb + 16) r12) (r9 - 32) sz)
               (r9 - 32 + 8) pad) (r9 - 32 + 16) 0) \<and>
      unat B + 32 \<le> unat r9 \<and> unat r9 + unat sz \<le> unat B + unat nbs)"
proof -
  define r9 where "r9 = (B + 32 + (al - 1)) AND NOT (al - 1)"
  define pad where "pad = r9 - (B + 32)"
  define r12 where "r12 = 32 + pad + sz"
  have eq: "alloc_from_block m nb sz al =
      (if nbs < r12 then (0, m)
       else (r9, write64 (write64 (write64 (write64 m (nb + 16) r12) (r9 - 32) sz)
               (r9 - 32 + 8) pad) (r9 - 32 + 16) 0))"
    unfolding r12_def pad_def r9_def by (rule alloc_from_block_fresh_eq [OF fields])
  have alp: "0 < unat al"
    using al by (simp add: unat_gt_0)
  have y: "unat (B + 32) = unat B + 32"
    using bounds alp by (intro unat_plus [THEN trans]) simp_all
  have "unat (B + 32) + unat al \<le> 2 ^ 64"
    unfolding y using bounds by linarith
  from align_up_bounds [OF al this]
  have lo: "unat B + 32 \<le> unat r9" and hi: "unat r9 < unat B + 32 + unat al"
    unfolding r9_def [symmetric] y by simp_all
  have "B + 32 \<le> r9"
    unfolding word_le_nat_alt y by (rule lo)
  then have up: "unat pad = unat r9 - (unat B + 32)"
    unfolding pad_def by (simp add: unat_sub y)
  have a1: "unat (32 + pad) = 32 + unat pad"
    using up hi bounds by (intro unat_plus [THEN trans]) simp_all
  have "unat (32 + pad) + unat sz < 2 ^ 64"
    unfolding a1 up using lo hi bounds by linarith
  from unat_plus [OF this] have u12: "unat r12 = 32 + unat pad + unat sz"
    unfolding r12_def a1 .
  show ?thesis
  proof (cases "nbs < r12")
    case True
    then show ?thesis
      by (simp add: eq)
  next
    case False
    then have "unat r12 \<le> unat nbs"
      by (simp add: word_less_nat_alt)
    then have "unat r9 + unat sz \<le> unat B + unat nbs"
      unfolding u12 up using lo by linarith
    with lo eq False show ?thesis
      by auto
  qed
qed

lemma alloc_new_region_frame:
  assumes fields: "read64 m nb = B" "read64 m (nb + 16) = 0" "read64 m (nb + 8) = nbs"
    and bounds: "unat nb + 32 \<le> unat B" "unat B \<le> unat nb + 47"
      "unat nb + 79 + unat al \<le> 2 ^ 64" "unat sz + unat al + 32 \<le> 2 ^ 64"
    and al: "al \<noteq> 0" and sz: "sz \<noteq> 0"
    and fit: "unat nb + 47 + unat nbs \<le> 2 ^ 64"
    and a: "unat a + 8 \<le> 2 ^ 64"
      "unat a + 8 \<le> unat nb + 16 \<or> (unat nb + 24 \<le> unat a \<and> unat a + 8 \<le> unat nb + 32) \<or>
        unat nb + 47 + unat nbs \<le> unat a"
  shows "read64 (snd (alloc_from_block m nb sz al)) a = read64 m a"
  using alloc_new_region [OF fields bounds al]
proof (elim disjE exE conjE)
  assume "alloc_from_block m nb sz al = (0, m)"
  then show ?thesis
    by simp
next
  fix r9 r12 pad
  assume eq: "alloc_from_block m nb sz al =
        (r9, write64 (write64 (write64 (write64 m (nb + 16) r12) (r9 - 32) sz)
               (r9 - 32 + 8) pad) (r9 - 32 + 16) 0)"
    and lo: "unat B + 32 \<le> unat r9" and hi: "unat r9 + unat sz \<le> unat B + unat nbs"
  have "0 < unat sz"
    using sz by (simp add: unat_gt_0)
  with lo hi bounds fit
  have w: "unat nb + 64 \<le> unat r9" "unat r9 < unat nb + 47 + unat nbs" "unat r9 < 2 ^ 64"
    by linarith+
  have "(32 :: 64 word) \<le> r9"
    unfolding word_le_nat_alt using w(1) by simp
  then have p2: "unat (r9 - 32) = unat r9 - 32"
    by (simp add: unat_sub)
  have p3: "unat (r9 - 32 + 8) = unat r9 - 24"
    using w p2 by (intro unat_plus [THEN trans]) simp_all
  have p4: "unat (r9 - 32 + 16) = unat r9 - 16"
    using w p2 by (intro unat_plus [THEN trans]) simp_all
  have p1: "unat (nb + 16) = unat nb + 16"
    using bounds by (intro unat_plus [THEN trans]) simp_all
  have d1: "unat (nb + 16) + 8 \<le> unat a \<or> unat a + 8 \<le> unat (nb + 16)"
    using a(2) unfolding p1 by auto
  have d2: "unat (r9 - 32) + 8 \<le> unat a \<or> unat a + 8 \<le> unat (r9 - 32)"
    using a(2) w unfolding p2 by auto
  have d3: "unat (r9 - 32 + 8) + 8 \<le> unat a \<or> unat a + 8 \<le> unat (r9 - 32 + 8)"
    using a(2) w unfolding p3 by auto
  have d4: "unat (r9 - 32 + 16) + 8 \<le> unat a \<or> unat a + 8 \<le> unat (r9 - 32 + 16)"
    using a(2) w unfolding p4 by auto
  have b1: "unat (nb + 16) + 8 \<le> 2 ^ 64" and b2: "unat (r9 - 32) + 8 \<le> 2 ^ 64"
    and b3: "unat (r9 - 32 + 8) + 8 \<le> 2 ^ 64" and b4: "unat (r9 - 32 + 16) + 8 \<le> 2 ^ 64"
    using w bounds unfolding p1 p2 p3 p4 by simp_all
  show ?thesis
    by (simp only: eq snd_conv read64_write64_far [OF d4 b4 a(1)]
        read64_write64_far [OF d3 b3 a(1)] read64_write64_far [OF d2 b2 a(1)]
        read64_write64_far [OF d1 b1 a(1)])
qed

lemma alloc_new_region_small:
  assumes fields: "read64 m nb = B" "read64 m (nb + 16) = 0" "read64 m (nb + 8) = nbs"
    and bounds: "unat nb + 32 \<le> unat B" "unat B \<le> unat nb + 47"
      "unat nb + 79 + unat al \<le> 2 ^ 64" "unat sz + unat al + 32 \<le> 2 ^ 64"
    and k: "al = 2 ^ k" "k \<le> 4"
    and B: "16 dvd unat B"
    and room: "unat sz + 32 \<le> unat nbs"
  shows "fst (alloc_from_block m nb sz al) \<noteq> 0"
proof -
  define r9 where "r9 = (B + 32 + (al - 1)) AND NOT (al - 1)"
  have ual: "unat al = 2 ^ k"
    unfolding k(1) using k(2) by (intro unat_two_power) simp
  then have alp: "0 < unat al"
    by simp
  then have al: "al \<noteq> 0"
    by (simp add: unat_gt_0)
  have y: "unat (B + 32) = unat B + 32"
    using bounds alp by (intro unat_plus [THEN trans]) simp_all
  have "unat (B + 32) + unat al \<le> 2 ^ 64"
    unfolding y using bounds by linarith
  from align_up_bounds [OF al this]
  have lo: "unat B + 32 \<le> unat r9" and hi: "unat r9 < unat B + 32 + 2 ^ k"
    unfolding r9_def [symmetric] y ual by simp_all
  have "(2 :: nat) ^ k dvd 2 ^ 4"
    using k(2) by (rule le_imp_power_dvd)
  then have "(2 :: nat) ^ k dvd 16"
    by simp
  then have "2 ^ k dvd unat B" "(2 :: nat) ^ k dvd 32"
    using B by (auto elim: dvd_trans)
  then have dy: "2 ^ k dvd unat B + 32"
    by (rule dvd_add)
  have dr: "2 ^ k dvd unat r9"
    unfolding r9_def k(1) by (rule round_down_dvd)
  have "2 ^ k dvd unat r9 - (unat B + 32)"
    using dr dy by (rule dvd_diff_nat)
  moreover have "unat r9 - (unat B + 32) < 2 ^ k"
    using lo hi by linarith
  ultimately have "unat r9 - (unat B + 32) = 0"
    using nat_dvd_not_less by fastforce
  with lo have "unat r9 = unat (B + 32)"
    unfolding y by linarith
  then have r: "r9 = B + 32"
    by (simp only: word_unat_eq_iff)
  have u: "unat (32 + sz) = 32 + unat sz"
    using bounds alp by (intro unat_plus [THEN trans]) simp_all
  have "\<not> nbs < 32 + sz"
    unfolding word_less_nat_alt u using room by simp
  then have "fst (alloc_from_block m nb sz al) = r9"
    unfolding alloc_from_block_fresh_eq [OF fields] r9_def [symmetric] by (simp add: r)
  moreover have "r9 \<noteq> 0"
    using lo by (auto simp: unat_eq_0 [symmetric] simp del: unat_eq_0)
  ultimately show ?thesis
    by simp
qed

lemma two_power_guard:
  "(2 ^ k :: 64 word) AND (2 ^ k - 1) = 0"
  by (rule bit_eqI) (auto simp: bit_simps mask_eq_decr_exp [symmetric])

lemma new_base_dvd: "16 dvd unat (((nb :: addr) + 32 + 15) AND NOT 15)"
  using round_down_dvd [of 4 "nb + 32 + 15"] by simp

section \<open>Pool: what a failed allocation leaves behind\<close>

lemma pool4096_alloc_5000_128:
  "pool_alloc (Some pool4096) mem4096 5000 128 (os_at 0x20000) =
     Some (Inr (0, Some pool4096, mem_grown 5032))"
proof -
  have a: "alloc_from_block mem4096 0x10000 5000 128 = (0, mem4096)"
    by (simp add: alloc_from_block_def mem4096_fields Let_def)
  have b: "bump_loop mem4096 5000 128 0x10000 = Some (0, mem4096)"
    by (simp add: bump_loop.simps a mem4096_fields)
  have c: "alloc_from_block (mem_grown 5032) 0x20000 5000 128 = (0, mem_grown 5032)"
    by (simp add: alloc_from_block_def mem_grown_fields Let_def)
  have "grow pool4096 mem4096 5000 128 (os_at 0x20000) = Some (0, pool4096, mem_grown 5032)"
    using c by (intro grow_4096) simp
  then show ?thesis
    by (simp add: pool_alloc_def no_free_block b pool4096_fields)
qed

lemma os_at_apply: "os_at a x = a"
  by (simp add: os_at_def)

lemma new_region_fits:
  assumes "new_block_fresh nb nbs al bs"
  shows "region_fits (chain_new_block m nb nbs bs) nb al"
proof -
  note f = fresh_facts [OF assms]
  from new_base_bounds(2) [OF f(4)] f(2) show ?thesis
    unfolding region_fits_def chain_fields [OF assms] by simp
qed

text \<open>
  What a \<^verbatim>\<open>pool_alloc\<close> that returns 0 for a non-zero alignment leaves behind, in general.
  The pool is as it was if the request was rejected at the door (size 0, alignment not a
  power of two) or the operating system refused the new region.  Otherwise the operating
  system did grant a region, and the code has chained it behind the last one before
  trying the allocation in it: it stays there, empty, and nothing else has changed.
\<close>

theorem pool_alloc_failure:
  assumes "pool_alloc (Some pool) m sz al os = Some (Inr (0, h', m'))"
    and "al \<noteq> 0"
    and "linked m 16 (Pool.free_list pool) fl" "\<forall>h\<in>set fl. h + 32 \<noteq> 0"
    and "linked m 24 (block_head pool) bs" "\<forall>b\<in>set bs. region_fits m b al"
    and "nb = os (new_block_size pool sz + 32)"
    and "nb \<noteq> 0 \<longrightarrow> new_block_fresh nb (new_block_size pool sz) al bs"
  shows "if sz = 0 \<or> al AND (al - 1) \<noteq> 0 \<or> nb = 0
         then h' = Some pool \<and> m' = m
         else h' = Some (if block_head pool = 0 then pool\<lparr>block_head := nb\<rparr> else pool) \<and>
              m' = chain_new_block m nb (new_block_size pool sz) bs \<and>
              read64 m' (nb + 16) = 0"
proof (cases "sz = 0 \<or> al AND (al - 1) \<noteq> 0")
  case True
  with assms(1) show ?thesis
    by (auto simp: pool_alloc_def)
next
  case False
  have rf: "remove_free_block pool m sz al = Some (Inr (0, pool, m))"
  proof -
    from remove_free_block_loop_linked [OF assms(3) assms(2), of pool sz 0]
    show ?thesis
      unfolding remove_free_block_def
    proof
      assume "\<exists>h\<in>set fl. (h + 32) mod al = 0 \<and> sz \<le> read64 m h \<and>
         (\<exists>pool' m'. remove_free_block_loop pool m sz al 0 (Pool.free_list pool) =
            Some (Inr (h + 32, pool', m')))"
      then obtain h pool' m'' where h: "h \<in> set fl"
        and r: "remove_free_block_loop pool m sz al 0 (Pool.free_list pool) =
            Some (Inr (h + 32, pool', m''))"
        by blast
      from h assms(4) have "h + 32 \<noteq> 0"
        by blast
      with assms(1) False r show "remove_free_block_loop pool m sz al 0 (Pool.free_list pool) =
          Some (Inr (0, pool, m))"
        by (simp add: pool_alloc_def remove_free_block_def)
    qed
  qed
  have bl: "bump_loop m sz al (block_head pool) = Some (0, m)"
  proof (cases "bump_loop m sz al (block_head pool)")
    case None
    with assms(1) False rf show ?thesis
      by (simp add: pool_alloc_def)
  next
    case (Some r)
    obtain p m2 where r: "r = (p, m2)"
      by (cases r)
    have "p = 0"
      using assms(1) False rf Some r
      by (auto simp: pool_alloc_def split: if_splits option.splits)
    with Some r have z: "bump_loop m sz al (block_head pool) = Some (0, m2)"
      by simp
    from bump_loop_zero [OF assms(5) _ assms(2) z] assms(6) have "m2 = m"
      by blast
    with z show ?thesis
      by simp
  qed
  show ?thesis
  proof (cases "nb = 0")
    case True
    then have "grow pool m sz al os = Some (0, pool, m)"
      using assms(7) by (intro grow_refused) simp
    with assms(1) False rf bl True show ?thesis
      by (simp add: pool_alloc_def)
  next
    case nz: False
    with assms(8) have fr: "new_block_fresh nb (new_block_size pool sz) al bs"
      by simp
    let ?m7 = "chain_new_block m nb (new_block_size pool sz) bs"
    have g: "grow pool m sz al os =
        Some (fst (alloc_from_block ?m7 nb sz al),
              (if bs = [] then pool\<lparr>block_head := nb\<rparr> else pool),
              snd (alloc_from_block ?m7 nb sz al))"
      by (rule grow_granted [where os = os, OF assms(5) fr assms(7) [symmetric] nz])
    have res: "fst (alloc_from_block ?m7 nb sz al) = 0"
      and h': "h' = Some (if bs = [] then pool\<lparr>block_head := nb\<rparr> else pool)"
      and m': "m' = snd (alloc_from_block ?m7 nb sz al)"
      using assms(1) False rf bl by (simp_all add: pool_alloc_def g)
    from alloc_from_block_zero [OF new_region_fits [OF fr] assms(2) res] m'
    have "m' = ?m7"
      by simp
    moreover have "(block_head pool = 0) = (bs = [])"
      by (rule linked_head_null [OF assms(5)])
    ultimately show ?thesis
      using False nz h' chain_fields(3) [OF fr, of m] by simp
  qed
qed

theorem pool_alloc_failure_witness:
  "pool_alloc (Some pool4096) mem4096 5000 128 (os_at 0x20000) =
     Some (Inr (0, Some pool4096, mem_grown 5032)) \<and>
   mem_grown 5032 = chain_new_block mem4096 0x20000 5032 [0x10000]"
  using pool_alloc_failure [of pool4096 mem4096 5000 128 "os_at 0x20000" "Some pool4096"
      "mem_grown 5032" "[]" "[0x10000]" "0x20000"]
  by (simp add: pool4096_alloc_5000_128 pool4096_fields mem4096_fields region_fits_def
      new_block_fresh_def new_block_size_def HEADER_SIZE_def os_at_apply)

section \<open>Pool: growth\<close>

lemma new_block_size_room:
  assumes "unat sz + 32 < 2 ^ 64"
  shows "unat sz + 32 \<le> unat (new_block_size pool sz)"
proof -
  have u: "unat (sz + 32) = unat sz + 32"
    using assms by (intro unat_plus [THEN trans]) simp_all
  show ?thesis
  proof (cases "initial_block_size pool < sz + 32")
    case True
    then show ?thesis
      by (simp add: new_block_size_def HEADER_SIZE_def u)
  next
    case False
    then have "unat (sz + 32) \<le> unat (initial_block_size pool)"
      by (simp add: word_less_nat_alt)
    with False show ?thesis
      by (simp add: new_block_size_def HEADER_SIZE_def u)
  qed
qed

text \<open>
  The growth path of \<^verbatim>\<open>pool_alloc\<close>, in general.  For a request of at least one byte with
  a power-of-two alignment that no free-list block matches and no existing region can
  hold, \<^verbatim>\<open>pool_alloc\<close> returns 0 with the pool unchanged when the operating system refuses
  the new region.  Otherwise it chains exactly one new region of
  \<open>max(initial_block_size, size + 32)\<close> usable bytes behind the last one and returns what
  \<^verbatim>\<open>alloc_from_block\<close> gives in that region: a pointer when the alignment is at most 16,
  where no padding is needed; for a larger alignment the size leaves no room for the
  padding, and the result can be 0.
\<close>

theorem pool_growth:
  assumes "sz \<noteq> 0" "al = 2 ^ k" "k < 64"
    and "linked m 16 (Pool.free_list pool) fl"
    and "\<forall>h\<in>set fl. \<not> ((h + 32) mod al = 0 \<and> sz \<le> read64 m h)"
    and "linked m 24 (block_head pool) bs"
    and "\<forall>b\<in>set bs. alloc_from_block m b sz al = (0, m)"
    and "headers_apart bs"
    and "nbs = new_block_size pool sz" "nb = os (nbs + 32)"
    and "nb \<noteq> 0 \<longrightarrow> new_block_fresh nb nbs al bs \<and> unat sz + unat al + 32 \<le> 2 ^ 64"
  shows "if nb = 0 then pool_alloc (Some pool) m sz al os = Some (Inr (0, Some pool, m))
     else (\<exists>p m'.
        pool_alloc (Some pool) m sz al os =
          Some (Inr (p, Some (if block_head pool = 0 then pool\<lparr>block_head := nb\<rparr> else pool), m')) \<and>
        (p, m') = alloc_from_block (chain_new_block m nb nbs bs) nb sz al \<and>
        linked m' 24 (if block_head pool = 0 then nb else block_head pool) (bs @ [nb]) \<and>
        read64 m' (nb + 8) = nbs \<and>
        (k \<le> 4 \<longrightarrow> p \<noteq> 0))"
proof -
  have ual: "unat al = 2 ^ k"
    unfolding assms(2) by (rule unat_two_power [OF assms(3)])
  then have alp: "0 < unat al"
    by simp
  then have al: "al \<noteq> 0"
    by (simp add: unat_gt_0)
  have guard: "\<not> (sz = 0 \<or> al AND (al - 1) \<noteq> 0)"
    using assms(1) unfolding assms(2) by (simp add: two_power_guard)
  have rf: "remove_free_block pool m sz al = Some (Inr (0, pool, m))"
    using remove_free_block_loop_linked [OF assms(4) al, of pool sz 0]
  proof
    assume "remove_free_block_loop pool m sz al 0 (Pool.free_list pool) = Some (Inr (0, pool, m))"
    then show ?thesis
      by (simp add: remove_free_block_def)
  next
    assume "\<exists>h\<in>set fl. (h + 32) mod al = 0 \<and> sz \<le> read64 m h \<and>
       (\<exists>pool' m'. remove_free_block_loop pool m sz al 0 (Pool.free_list pool) =
          Some (Inr (h + 32, pool', m')))"
    then obtain h where h: "h \<in> set fl"
      and p: "(h + 32) mod al = 0 \<and> sz \<le> read64 m h \<and>
       (\<exists>pool' m'. remove_free_block_loop pool m sz al 0 (Pool.free_list pool) =
          Some (Inr (h + 32, pool', m')))" ..
    from bspec [OF assms(5) h] p have False
      by simp
    then show ?thesis ..
  qed
  have bl: "bump_loop m sz al (block_head pool) = Some (0, m)"
    using assms(7) by (intro bump_loop_fail [OF assms(6)]) blast
  have pa: "pool_alloc (Some pool) m sz al os =
      (case grow pool m sz al os of None \<Rightarrow> None
       | Some (result3, pool3, m3) \<Rightarrow> Some (Inr (result3, Some pool3, m3)))"
    using guard by (simp add: pool_alloc_def rf bl)
  show ?thesis
  proof (cases "nb = 0")
    case True
    then have "grow pool m sz al os = Some (0, pool, m)"
      using assms(9,10) by (intro grow_refused) simp
    with True show ?thesis
      by (simp add: pa)
  next
    case nz: False
    with assms(11) have fr: "new_block_fresh nb nbs al bs"
      and big: "unat sz + unat al + 32 \<le> 2 ^ 64"
      by simp_all
    note f = fresh_facts [OF fr]
    let ?m7 = "chain_new_block m nb nbs bs"
    let ?r = "alloc_from_block ?m7 nb sz al"
    let ?B = "(nb + 32 + 15) AND NOT 15"
    have os: "os (new_block_size pool sz + 32) = nb"
      using assms(9,10) by simp
    have g: "grow pool m sz al os =
        Some (fst ?r, (if bs = [] then pool\<lparr>block_head := nb\<rparr> else pool), snd ?r)"
      unfolding assms(9)
      by (rule grow_granted [where os = os, OF assms(6) fr [unfolded assms(9)] os nz])
    have hd: "(block_head pool = 0) = (bs = [])"
      by (rule linked_head_null [OF assms(6)])
    note fields = chain_fields(1) [OF fr, of m] chain_fields(3) [OF fr, of m]
      chain_fields(2) [OF fr, of m]
    note bounds = new_base_bounds [OF f(4)] f(2) big
    have frame: "read64 (snd ?r) a = read64 ?m7 a"
      if "unat a + 8 \<le> 2 ^ 64"
        "unat a + 8 \<le> unat nb + 16 \<or> (unat nb + 24 \<le> unat a \<and> unat a + 8 \<le> unat nb + 32) \<or>
          unat nb + 47 + unat nbs \<le> unat a" for a
      by (rule alloc_new_region_frame [OF fields bounds al assms(1) f(1) that])
    note o = header_offsets [OF f(3)]
    have l7: "linked ?m7 24 (if bs = [] then nb else block_head pool) (bs @ [nb])"
      by (rule chain_linked [OF assms(6) fr assms(8) nz])
    have lk: "linked (snd ?r) 24 (if bs = [] then nb else block_head pool) (bs @ [nb])"
    proof (rule linked_frame [OF l7])
      fix x
      assume "x \<in> set (bs @ [nb])"
      then consider "x \<in> set bs" | "x = nb"
        by auto
      then show "read64 (snd ?r) (x + 24) = read64 ?m7 (x + 24)"
      proof cases
        case 1
        have ox: "unat (x + 24) = unat x + 24"
          using header_offsets(3) [OF f(5) [OF 1]] .
        show ?thesis
        proof (rule frame)
          show "unat (x + 24) + 8 \<le> 2 ^ 64"
            using f(5) [OF 1] unfolding ox by simp
          show "unat (x + 24) + 8 \<le> unat nb + 16 \<or>
              (unat nb + 24 \<le> unat (x + 24) \<and> unat (x + 24) + 8 \<le> unat nb + 32) \<or>
              unat nb + 47 + unat nbs \<le> unat (x + 24)"
            using f(6) [OF 1] unfolding ox by auto
        qed
      next
        case 2
        show ?thesis
          unfolding 2
        proof (rule frame)
          show "unat (nb + 24) + 8 \<le> 2 ^ 64"
            using f(3) unfolding o by simp
          show "unat (nb + 24) + 8 \<le> unat nb + 16 \<or>
              (unat nb + 24 \<le> unat (nb + 24) \<and> unat (nb + 24) + 8 \<le> unat nb + 32) \<or>
              unat nb + 47 + unat nbs \<le> unat (nb + 24)"
            unfolding o by simp
        qed
      qed
    qed
    have "read64 (snd ?r) (nb + 8) = read64 ?m7 (nb + 8)"
    proof (rule frame)
      show "unat (nb + 8) + 8 \<le> 2 ^ 64"
        using f(3) unfolding o by simp
      show "unat (nb + 8) + 8 \<le> unat nb + 16 \<or>
          (unat nb + 24 \<le> unat (nb + 8) \<and> unat (nb + 8) + 8 \<le> unat nb + 32) \<or>
          unat nb + 47 + unat nbs \<le> unat (nb + 8)"
        unfolding o by simp
    qed
    then have sz8: "read64 (snd ?r) (nb + 8) = nbs"
      by (simp only: chain_fields(2) [OF fr])
    have small: "fst ?r \<noteq> 0" if "k \<le> 4"
    proof (rule alloc_new_region_small [OF fields bounds assms(2) that new_base_dvd])
      have "unat sz + 32 < 2 ^ 64"
        using big alp by linarith
      then show "unat sz + 32 \<le> unat nbs"
        unfolding assms(9) by (rule new_block_size_room)
    qed
    have "pool_alloc (Some pool) m sz al os =
        Some (Inr (fst ?r, Some (if block_head pool = 0 then pool\<lparr>block_head := nb\<rparr> else pool),
          snd ?r))"
      by (simp add: pa g hd)
    moreover have "(fst ?r, snd ?r) = ?r"
      by simp
    moreover have "linked (snd ?r) 24 (if block_head pool = 0 then nb else block_head pool)
        (bs @ [nb])"
      using lk by (simp only: hd)
    ultimately have "\<exists>p m'.
        pool_alloc (Some pool) m sz al os =
          Some (Inr (p, Some (if block_head pool = 0 then pool\<lparr>block_head := nb\<rparr> else pool), m')) \<and>
        (p, m') = alloc_from_block (chain_new_block m nb nbs bs) nb sz al \<and>
        linked m' 24 (if block_head pool = 0 then nb else block_head pool) (bs @ [nb]) \<and>
        read64 m' (nb + 8) = nbs \<and>
        (k \<le> 4 \<longrightarrow> p \<noteq> 0)"
      using sz8 small by blast
    with nz show ?thesis
      by (simp only: if_False)
  qed
qed

theorem pool_growth_witness:
  "\<exists>p m'. pool_alloc (Some pool4096) mem4096 5000 16 (os_at 0x20000) =
       Some (Inr (p, Some pool4096, m')) \<and>
     linked m' 24 0x10000 [0x10000, 0x20000] \<and> read64 m' 0x20008 = 5032 \<and> p \<noteq> 0"
proof -
  have a: "alloc_from_block mem4096 0x10000 5000 16 = (0, mem4096)"
    by (simp add: alloc_from_block_def mem4096_fields Let_def)
  have "(2 :: 64 word) ^ 4 = 16"
    by simp
  with pool_growth [of 5000 16 4 mem4096 pool4096 "[]" "[0x10000]" 5032 "0x20000" "os_at 0x20000"] a
  have "\<exists>p m'. pool_alloc (Some pool4096) mem4096 5000 16 (os_at 0x20000) =
       Some (Inr (p, Some pool4096, m')) \<and>
     (p, m') = alloc_from_block (chain_new_block mem4096 0x20000 5032 [0x10000]) 0x20000 5000 16 \<and>
     linked m' 24 0x10000 [0x10000, 0x20000] \<and> read64 m' 0x20008 = 5032 \<and> p \<noteq> 0"
    by (simp add: pool4096_fields mem4096_fields headers_apart_def
        new_block_fresh_def new_block_size_def HEADER_SIZE_def os_at_apply)
  then show ?thesis
    by blast
qed

section \<open>Pool: two blocks, freed one after the other\<close>










section \<open>Pool: the merge loop and the relinking loop\<close>

declare merge_adjacent.simps [simp del]






section \<open>Pool: the free list after coalescing\<close>








end
